theory Spec2Isabelle
  imports Main "HOL-Library.Sublist" "HOL-Library.Multiset"
begin

section \<open>Typo-tolerant search: the trie, the distance rows and the inverted index\<close>

text \<open>
  The embedding follows \<^verbatim>\<open>simplesearch.py\<close>. Python objects live in an object
  store: a \<^verbatim>\<open>Node\<close> is a record, a reference to a node is its address (an index
  into the store), and an assignment to a field of a node is an update of the store.
  Python's unbounded integers are \<open>int\<close>; a Python \<^verbatim>\<open>str\<close> is a \<open>string\<close>, one
  \<open>char\<close> per code point, so the strings of the model are those whose code points are
  below 256. An exception is a value of \<open>error\<close>; a loop that could run forever on an
  arbitrary store returns \<open>None\<close>.
\<close>

subsection \<open>Exceptions and indexing\<close>

datatype error = TypeError | IndexError

subsection \<open>Text normalisation: \<^verbatim>\<open>Trie.preprocess\<close>\<close>

text \<open>
  \<^verbatim>\<open>str.lower\<close> on code points below 256: the letters A-Z and the capital letters
  of Latin-1 (U+00C0 to U+00DE without the multiplication sign U+00D7) move up by 32.
\<close>

definition lower_char :: "char \<Rightarrow> char" where
  "lower_char c =
     (let k = of_char c :: nat in
      if (65 \<le> k \<and> k \<le> 90) \<or> (192 \<le> k \<and> k \<le> 222 \<and> k \<noteq> 215)
      then char_of (k + 32) else c)"

definition lower :: "string \<Rightarrow> string" where
  "lower s = map lower_char s"

text \<open>\<^verbatim>\<open>string.punctuation\<close>: the code points 33-47, 58-64, 91-96 and 123-126.\<close>

definition punctuation :: "char \<Rightarrow> bool" where
  "punctuation c =
     (let k = of_char c :: nat in
      (33 \<le> k \<and> k \<le> 47) \<or> (58 \<le> k \<and> k \<le> 64) \<or> (91 \<le> k \<and> k \<le> 96) \<or> (123 \<le> k \<and> k \<le> 126))"

text \<open>\<^verbatim>\<open>.translate(str.maketrans("", "", string.punctuation))\<close> deletes them.\<close>

definition translate :: "string \<Rightarrow> string" where
  "translate s = filter (\<lambda>c. \<not> punctuation c) s"

text \<open>
  \<^verbatim>\<open>.encode("ascii", "replace").decode()\<close>: a code point that is not ASCII becomes a
  question mark.
\<close>

definition encode_decode :: "string \<Rightarrow> string" where
  "encode_decode s = map (\<lambda>c. if (of_char c :: nat) < 128 then c else CHR ''?'') s"

definition preprocess :: "string \<Rightarrow> string" where
  "preprocess doc = encode_decode (translate (lower doc))"

text \<open>
  \<^verbatim>\<open>str.split()\<close> with no argument: the maximal runs of characters that are not
  white space (code points 9-13, 28-32, 133 and 160 among those below 256).
\<close>

definition isspace :: "char \<Rightarrow> bool" where
  "isspace c =
     (let k = of_char c :: nat in (9 \<le> k \<and> k \<le> 13) \<or> (28 \<le> k \<and> k \<le> 32) \<or> k = 133 \<or> k = 160)"

fun split_from :: "string \<Rightarrow> string \<Rightarrow> string list" where
  "split_from cur [] = (if cur = [] then [] else [cur])"
| "split_from cur (c # cs) =
     (if isspace c then (if cur = [] then split_from [] cs else cur # split_from [] cs)
      else split_from (cur @ [c]) cs)"

definition str_split :: "string \<Rightarrow> string list" where
  "str_split s = split_from [] s"

subsection \<open>Nodes and the object store\<close>

text \<open>
  \<^verbatim>\<open>class Node\<close>. The dictionary \<open>children\<close> keeps its insertion order, as a Python
  dictionary does; \<open>dists\<close> is \<open>None\<close> until a search stores a row.
\<close>

record node =
  word :: string
  parent :: "nat option"
  children :: "(char \<times> nat) list"
  dists :: "int list option"
  is_word :: bool

definition Node :: "string \<Rightarrow> nat option \<Rightarrow> node" where
  "Node w p = \<lparr>word = w, parent = p, children = [], dists = None, is_word = False\<rparr>"

text \<open>\<^verbatim>\<open>class Trie\<close>: the reference \<open>root\<close>, together with the store of its nodes.\<close>

record trie =
  root :: nat
  heap :: "node list"

definition Trie_init :: trie where
  "Trie_init = \<lparr>root = 0, heap = [Node [] None]\<rparr>"

subsection \<open>\<^verbatim>\<open>Trie.insert\<close>\<close>

text \<open>
  \<^verbatim>\<open>node.children.setdefault(char, Node(word[: i + 1], node))\<close>: the child under
  \<open>char\<close> when there is one; otherwise a new node, allocated at the end of the store and
  entered last in the dictionary. (Python builds the new node before it looks the key
  up; when the key is there the new node is unreachable garbage, which the store
  leaves out.)
\<close>

definition setdefault :: "node list \<Rightarrow> nat \<Rightarrow> char \<Rightarrow> string \<Rightarrow> node list \<times> nat" where
  "setdefault h nd c w =
     (case map_of (children (h ! nd)) c of
        Some b \<Rightarrow> (h, b)
      | None \<Rightarrow>
          (let b = length h
           in ((h @ [Node w (Some nd)])[nd := (h ! nd)\<lparr>children := children (h ! nd) @ [(c, b)]\<rparr>], b)))"

text \<open>The loop \<^verbatim>\<open>for i, char in enumerate(word)\<close>, from index \<open>i\<close> on.\<close>

fun insert_loop :: "string \<Rightarrow> nat \<Rightarrow> string \<Rightarrow> node list \<times> nat \<Rightarrow> node list \<times> nat" where
  "insert_loop w i [] (h, nd) = (h, nd)"
| "insert_loop w i (c # cs) (h, nd) = insert_loop w (i + 1) cs (setdefault h nd c (take (i + 1) w))"

definition Trie_insert :: "trie \<Rightarrow> string \<Rightarrow> trie" where
  "Trie_insert t w0 =
     (let w = preprocess w0;
          (h, nd) = insert_loop w 0 w (heap t, root t)
      in t\<lparr>heap := h[nd := (h ! nd)\<lparr>is_word := True\<rparr>]\<rparr>)"

subsection \<open>\<^verbatim>\<open>Trie.get_levenshtein_dists\<close>\<close>

text \<open>
  The loop \<^verbatim>\<open>for i in range(...)\<close> over the window. Python evaluates
  \<^verbatim>\<open>node.word[-1]\<close> (IndexError on an empty word), then \<^verbatim>\<open>prev_dists[i]\<close>
  (TypeError when the parent's row is \<^verbatim>\<open>None\<close>, IndexError when it is too short),
  and, when the characters differ, \<^verbatim>\<open>prev_dists[i + 1]\<close>. The reads
  \<^verbatim>\<open>query[i]\<close>, \<^verbatim>\<open>dists[i]\<close> and the write \<^verbatim>\<open>dists[i + 1]\<close> are in range
  by the bounds of the loop.
\<close>

fun dists_loop :: "string \<Rightarrow> string \<Rightarrow> int list option \<Rightarrow> nat list \<Rightarrow> int list \<Rightarrow> error + int list" where
  "dists_loop query w prev_dists [] ds = Inr ds"
| "dists_loop query w prev_dists (i # is) ds =
     (if w = [] then Inl IndexError
      else case prev_dists of
        None \<Rightarrow> Inl TypeError
      | Some prev \<Rightarrow>
          if query ! i = last w then
            (if i < length prev
             then dists_loop query w prev_dists is (ds[i + 1 := prev ! i])
             else Inl IndexError)
          else
            (if i + 1 < length prev
             then dists_loop query w prev_dists is
                    (ds[i + 1 := 1 + min (prev ! i) (min (prev ! (i + 1)) (ds ! i))])
             else Inl IndexError))"

definition get_levenshtein_dists :: "node list \<Rightarrow> nat \<Rightarrow> string \<Rightarrow> int \<Rightarrow> error + int list" where
  "get_levenshtein_dists h nd query n =
     (case parent (h ! nd) of
        None \<Rightarrow> Inr (map int [0..<length query + 1])
      | Some p \<Rightarrow>
          (let ds = replicate (length query + 1) (n + 1);
               ds = ds[0 := int (length (word (h ! nd)))];
               prev_dists = dists (h ! p)
           in dists_loop query (word (h ! nd)) prev_dists
                [nat (max 0 (ds ! 0 - n - 1))..<nat (min (int (length query)) (ds ! 0 + n + 1))] ds))"

subsection \<open>\<^verbatim>\<open>Trie.fuzzySearch\<close>\<close>

text \<open>
  The body of \<^verbatim>\<open>if node not in visited\<close>: the row is computed and stored on the
  node, the word is added when the node is a word within the bound, and the children
  are the nodes to push when some entry of the row is within the bound. The rows have
  \<open>length query + 1\<close> entries, so \<^verbatim>\<open>node.dists[-1]\<close> and \<^verbatim>\<open>min(node.dists)\<close>
  read a list that is not empty.
\<close>

definition visit :: "string \<Rightarrow> int \<Rightarrow> nat \<Rightarrow> string set \<times> node list \<Rightarrow> error + (string set \<times> node list \<times> nat list)" where
  "visit query n nd s =
     (case s of (matching_set, h) \<Rightarrow>
        (case get_levenshtein_dists h nd query n of
           Inl e \<Rightarrow> Inl e
         | Inr ds \<Rightarrow>
             (let h = h[nd := (h ! nd)\<lparr>dists := Some ds\<rparr>];
                  matching_set =
                    (if is_word (h ! nd) \<and> last ds \<le> n
                     then insert (word (h ! nd)) matching_set else matching_set);
                  pushed = (if min_list ds \<le> n then map snd (children (h ! nd)) else [])
              in Inr (matching_set, h, pushed))))"

text \<open>
  The loop \<^verbatim>\<open>while stack\<close>. The top of the stack is the end of the list. The code
  never adds to \<open>visited\<close>, so it stays as it is passed. The last argument is a history
  variable, which the code does not have and on which no result depends: the
  addresses of the nodes whose row has been computed, in the order of computation.
\<close>

partial_function (option) fuzzySearch_loop ::
    "string \<Rightarrow> int \<Rightarrow> nat set \<Rightarrow> nat list \<Rightarrow> string set \<Rightarrow> node list \<Rightarrow> nat list
      \<Rightarrow> (error + string set \<times> node list \<times> nat list) option" where
  "fuzzySearch_loop query n visited stack matching_set h computed =
     (if stack = [] then Some (Inr (matching_set, h, computed))
      else
        (let nd = last stack; stack = butlast stack
         in if nd \<notin> visited then
              (case visit query n nd (matching_set, h) of
                 Inl e \<Rightarrow> Some (Inl e)
               | Inr (matching_set, h, pushed) \<Rightarrow>
                   fuzzySearch_loop query n visited (stack @ pushed) matching_set h (computed @ [nd]))
            else fuzzySearch_loop query n visited stack matching_set h computed))"

definition fuzzySearch_run :: "trie \<Rightarrow> string \<Rightarrow> int \<Rightarrow> (error + string set \<times> node list \<times> nat list) option" where
  "fuzzySearch_run t query n = fuzzySearch_loop (preprocess query) n {} [root t] {} (heap t) []"

text \<open>The call returns the matching set and leaves the trie with the rows it stored.\<close>

definition Trie_fuzzySearch :: "trie \<Rightarrow> string \<Rightarrow> int \<Rightarrow> (error + string set \<times> trie) option" where
  "Trie_fuzzySearch t query n =
     (case fuzzySearch_run t query n of
        None \<Rightarrow> None
      | Some (Inl e) \<Rightarrow> Some (Inl e)
      | Some (Inr (matching_set, h, computed)) \<Rightarrow> Some (Inr (matching_set, t\<lparr>heap := h\<rparr>)))"

declare fuzzySearch_loop.simps [code]

subsection \<open>\<^verbatim>\<open>class Index\<close>\<close>

text \<open>
  The inverted index is a \<^verbatim>\<open>defaultdict(lambda: set())\<close>: a map from words to sets
  of documents in which reading a missing key enters the key with an empty set.
\<close>

record index =
  trie :: trie
  inverted_index :: "string \<rightharpoonup> string set"

text \<open>\<^verbatim>\<open>self.inverted_index[word]\<close>: the set read, and the dictionary after the read.\<close>

definition getitem :: "(string \<rightharpoonup> string set) \<Rightarrow> string \<Rightarrow> string set \<times> (string \<rightharpoonup> string set)" where
  "getitem d w = (case d w of None \<Rightarrow> ({}, d(w \<mapsto> {})) | Some docs \<Rightarrow> (docs, d))"

text \<open>The body of the inner loop of \<^verbatim>\<open>Index.__init__\<close>, for one word of one document.\<close>

definition add_word :: "string \<Rightarrow> index \<Rightarrow> string \<Rightarrow> index" where
  "add_word doc idx w =
     (let t = Trie_insert (trie idx) w;
          (docs, d) = getitem (inverted_index idx) w
      in \<lparr>trie = t, inverted_index = d(w \<mapsto> insert doc docs)\<rparr>)"

definition Index_init :: "string list \<Rightarrow> index" where
  "Index_init documents =
     foldl (\<lambda>idx doc. foldl (add_word doc) idx (str_split (preprocess doc)))
       \<lparr>trie = Trie_init, inverted_index = Map.empty\<rparr> documents"

text \<open>
  \<^verbatim>\<open>Index.fuzzySearch\<close>: the set comprehension over the words the trie returns.
  Every word is read in the dictionary, which enters the words it does not have.
\<close>

definition Index_fuzzySearch :: "index \<Rightarrow> string \<Rightarrow> int \<Rightarrow> (error + string set \<times> index) option" where
  "Index_fuzzySearch idx query n =
     (case Trie_fuzzySearch (trie idx) query n of
        None \<Rightarrow> None
      | Some (Inl e) \<Rightarrow> Some (Inl e)
      | Some (Inr (ws, t)) \<Rightarrow>
          Some (Inr (\<Union>w\<in>ws. fst (getitem (inverted_index idx) w),
                     \<lparr>trie = t,
                      inverted_index = (\<lambda>w. if w \<in> ws then snd (getitem (inverted_index idx) w) w
                                             else inverted_index idx w)\<rparr>)))"

subsection \<open>The words of a trie\<close>

text \<open>The terminal words: the words of the nodes that are flagged \<open>is_word\<close>.\<close>

definition terminal_words :: "trie \<Rightarrow> string set" where
  "terminal_words t = {word nd |nd. nd \<in> set (heap t) \<and> is_word nd}"

section \<open>The specification's distance and the invariants of the proofs\<close>

fun levenshtein :: "'a list \<Rightarrow> 'a list \<Rightarrow> nat" where
  "levenshtein [] ys = length ys"
| "levenshtein (x # xs) [] = Suc (length xs)"
| "levenshtein (x # xs) (y # ys) =
     min (min (levenshtein xs (y # ys) + 1) (levenshtein (x # xs) ys + 1))
         (levenshtein xs ys + (if x = y then 0 else 1))"

inductive align :: "'a list \<Rightarrow> 'a list \<Rightarrow> nat \<Rightarrow> bool" where
  Nil: "align [] [] 0"
| Del: "align xs ys k \<Longrightarrow> align (x # xs) ys (Suc k)"
| Ins: "align xs ys k \<Longrightarrow> align xs (y # ys) (Suc k)"
| Keep: "align xs ys k \<Longrightarrow> align (x # xs) (x # ys) k"
| Sub: "align xs ys k \<Longrightarrow> align (x # xs) (y # ys) (Suc k)"

definition within :: "nat \<Rightarrow> int \<Rightarrow> nat \<Rightarrow> bool" where
  "within N r L \<longleftrightarrow> r = int L \<or> (int N < r \<and> N < L)"

definition row_ok :: "nat \<Rightarrow> string \<Rightarrow> string \<Rightarrow> int list \<Rightarrow> bool" where
  "row_ok N q w r \<longleftrightarrow>
     length r = length q + 1 \<and> (\<forall>j\<le>length q. within N (r ! j) (levenshtein w (take j q)))"

definition wf_heap :: "node list \<Rightarrow> bool" where
  "wf_heap h \<longleftrightarrow>
     h \<noteq> [] \<and> parent (h ! 0) = None \<and> word (h ! 0) = [] \<and>
     (\<forall>a<length h. distinct (map fst (children (h ! a))) \<and>
        (\<forall>c b. (c, b) \<in> set (children (h ! a)) \<longrightarrow>
           a < b \<and> b < length h \<and> parent (h ! b) = Some a \<and> word (h ! b) = word (h ! a) @ [c])) \<and>
     (\<forall>b<length h. 0 < b \<longrightarrow> (\<exists>a<length h. \<exists>c. parent (h ! b) = Some a \<and> (c, b) \<in> set (children (h ! a))))"

definition below :: "node list \<Rightarrow> nat \<Rightarrow> nat set" where
  "below h s = {a. a < length h \<and> prefix (word (h ! s)) (word (h ! a))}"

definition hits :: "nat \<Rightarrow> string \<Rightarrow> node list \<Rightarrow> nat \<Rightarrow> string set" where
  "hits N q h s = {word (h ! a) |a. a \<in> below h s \<and> is_word (h ! a) \<and> levenshtein (word (h ! a)) q \<le> N}"

definition effect :: "nat \<Rightarrow> string \<Rightarrow> node list \<Rightarrow> nat set \<Rightarrow> node list \<Rightarrow> bool" where
  "effect N q h0 A h \<longleftrightarrow>
     length h = length h0 \<and>
     (\<forall>a<length h0.
        word (h ! a) = word (h0 ! a) \<and> parent (h ! a) = parent (h0 ! a) \<and>
        children (h ! a) = children (h0 ! a) \<and> is_word (h ! a) = is_word (h0 ! a) \<and>
        (if a \<in> A then \<exists>r. dists (h ! a) = Some r \<and> row_ok N q (word (h0 ! a)) r
         else dists (h ! a) = dists (h0 ! a)))"

definition antichain :: "node list \<Rightarrow> nat set \<Rightarrow> bool" where
  "antichain h S \<longleftrightarrow> (\<forall>s\<in>S. \<forall>s'\<in>S. s \<noteq> s' \<longrightarrow> \<not> prefix (word (h ! s)) (word (h ! s')))"

definition separate :: "node list \<Rightarrow> nat set \<Rightarrow> nat set \<Rightarrow> bool" where
  "separate h L S \<longleftrightarrow> (\<forall>a\<in>L. \<forall>s\<in>S. \<not> prefix (word (h ! s)) (word (h ! a)))"

definition ready :: "node list \<Rightarrow> nat set \<Rightarrow> nat set \<Rightarrow> bool" where
  "ready h L S \<longleftrightarrow> (\<forall>s\<in>S. s < length h \<and> (s = 0 \<or> (\<exists>p. parent (h ! s) = Some p \<and> p \<in> L)))"

definition parents_first :: "node list \<Rightarrow> nat list \<Rightarrow> bool" where
  "parents_first h l \<longleftrightarrow>
     (\<forall>i<length l. l ! i = 0 \<or> (\<exists>p. parent (h ! (l ! i)) = Some p \<and> p \<in> set (take i l)))"

definition kids :: "node list \<Rightarrow> nat \<Rightarrow> nat set" where
  "kids h s = snd ` set (children (h ! s))"

definition consistent :: "string \<Rightarrow> int \<Rightarrow> node list \<Rightarrow> nat list \<Rightarrow> bool" where
  "consistent q n h l \<longleftrightarrow>
     (\<forall>a\<in>set l. \<exists>r. dists (h ! a) = Some r \<and> get_levenshtein_dists h a q n = Inr r)"

definition inv :: "nat \<Rightarrow> string \<Rightarrow> node list \<Rightarrow> string set \<Rightarrow> nat list \<Rightarrow> string set \<Rightarrow> node list \<Rightarrow> nat list \<Rightarrow> bool" where
  "inv N q h0 R W M h l \<longleftrightarrow>
     wf_heap h0 \<and> effect N q h0 (set l) h \<and> ready h0 (set l) (set W) \<and>
     distinct W \<and> antichain h0 (set W) \<and> distinct l \<and> separate h0 (set l) (set W) \<and>
     parents_first h0 l \<and> set l \<subseteq> {..<length h0} \<and> consistent q (int N) h l \<and> M \<union> (\<Union>k\<in>set W. hits N q h0 k) = R"

definition twords :: "node list \<Rightarrow> string set" where
  "twords h = {word (h ! a) |a. a < length h \<and> is_word (h ! a)}"

definition wf_trie :: "trie \<Rightarrow> bool" where
  "wf_trie t \<longleftrightarrow> root t = 0 \<and> wf_heap (heap t)"

inductive built :: "string set \<Rightarrow> trie \<Rightarrow> bool" where
  init: "built {} Trie_init"
| ins: "built W t \<Longrightarrow> built (insert (preprocess w) W) (Trie_insert t w)"
| search: "built W t \<Longrightarrow> Trie_fuzzySearch t query n = Some (Inr (M, t')) \<Longrightarrow> built W t'"

text \<open>
  A traversal strategy, after the specification's wording: any node of the work list
  is visited next, with the body of the loop of \<^verbatim>\<open>fuzzySearch\<close>, and the nodes that
  the visit pushes enter the work list in any order and at any place. A node enters
  the work list only when its parent is visited. The stack of the code takes the last
  node and appends; a queue takes the first and appends.
\<close>

inductive traverse_step ::
    "string \<Rightarrow> int \<Rightarrow> nat list \<times> string set \<times> node list \<Rightarrow> nat list \<times> string set \<times> node list \<Rightarrow> bool"
    for query n where
  visit: "s \<in> set W \<Longrightarrow> visit query n s (M, h) = Inr (M1, h1, pushed) \<Longrightarrow>
     mset W' = mset W - {#s#} + mset pushed \<Longrightarrow> traverse_step query n (W, M, h) (W', M1, h1)"

lemma levenshtein_Nil2 [simp]: "levenshtein xs [] = length xs"
  by (cases xs) simp_all

lemma align_Nil1: "align [] ys (length ys)"
  by (induction ys) (auto intro: align.intros)

lemma align_Nil2: "align xs [] (length xs)"
  by (induction xs) (auto intro: align.intros)

lemma align_levenshtein: "align xs ys (levenshtein xs ys)"
proof (induction xs ys rule: levenshtein.induct)
  case (1 ys)
  show ?case by (simp add: align_Nil1)
next
  case (2 x xs)
  show ?case using align_Nil2 [of "x # xs"] by simp
next
  case (3 x xs y ys)
  let ?a = "levenshtein xs (y # ys)" and ?b = "levenshtein (x # xs) ys" and ?c = "levenshtein xs ys"
  have a: "align (x # xs) (y # ys) (Suc ?a)" using 3 by (auto intro: align.Del)
  have b: "align (x # xs) (y # ys) (Suc ?b)" using 3 by (auto intro: align.Ins)
  have c: "align (x # xs) (y # ys) (?c + (if x = y then 0 else 1))"
    using 3 by (auto intro: align.Keep align.Sub)
  show ?case using a b c by (simp add: min_def)
qed

lemma levenshtein_Del: "levenshtein (x # xs) ys \<le> Suc (levenshtein xs ys)"
  by (cases ys) auto

lemma levenshtein_Ins: "levenshtein xs (y # ys) \<le> Suc (levenshtein xs ys)"
  by (cases xs) auto

lemma levenshtein_Sub: "levenshtein (x # xs) (y # ys) \<le> levenshtein xs ys + (if x = y then 0 else 1)"
  by simp

lemma levenshtein_le_align: "align xs ys k \<Longrightarrow> levenshtein xs ys \<le> k"
proof (induction rule: align.induct)
  case Nil
  show ?case by simp
next
  case (Del xs ys k x)
  then show ?case using levenshtein_Del [of x xs ys] by linarith
next
  case (Ins xs ys k y)
  then show ?case using levenshtein_Ins [of xs y ys] by linarith
next
  case (Keep xs ys k x)
  then show ?case using levenshtein_Sub [of x xs x ys] by simp
next
  case (Sub xs ys k x y)
  have "levenshtein (x # xs) (y # ys) \<le> Suc (levenshtein xs ys)"
    using levenshtein_Sub [of x xs y ys] by (simp del: levenshtein.simps split: if_splits)
  with Sub show ?case by linarith
qed

lemma align_snoc_Keep: "align xs ys k \<Longrightarrow> align (xs @ [a]) (ys @ [a]) k"
  by (induction rule: align.induct) (auto intro: align.intros)

lemma align_snoc_Sub: "align xs ys k \<Longrightarrow> align (xs @ [a]) (ys @ [b]) (Suc k)"
  by (induction rule: align.induct) (auto intro: align.intros)

lemma align_snoc_Del: "align xs ys k \<Longrightarrow> align (xs @ [a]) ys (Suc k)"
  by (induction rule: align.induct) (auto intro: align.intros)

lemma align_snoc_Ins: "align xs ys k \<Longrightarrow> align xs (ys @ [b]) (Suc k)"
  by (induction rule: align.induct) (auto intro: align.intros)

lemma align_rev: "align xs ys k \<Longrightarrow> align (rev xs) (rev ys) k"
  by (induction rule: align.induct)
     (auto intro: align.Nil align_snoc_Keep align_snoc_Sub align_snoc_Del align_snoc_Ins)

lemma levenshtein_rev_le: "levenshtein (rev xs) (rev ys) \<le> levenshtein xs ys"
  by (rule levenshtein_le_align [OF align_rev [OF align_levenshtein]])

lemma levenshtein_rev: "levenshtein (rev xs) (rev ys) = levenshtein xs ys"
  using levenshtein_rev_le [of xs ys] levenshtein_rev_le [of "rev xs" "rev ys"] by simp

lemma levenshtein_snoc:
  "levenshtein (xs @ [x]) (ys @ [y]) =
     min (min (levenshtein xs (ys @ [y]) + 1) (levenshtein (xs @ [x]) ys + 1))
         (levenshtein xs ys + (if x = y then 0 else 1))"
proof -
  have "levenshtein (xs @ [x]) (ys @ [y]) = levenshtein (x # rev xs) (y # rev ys)"
    using levenshtein_rev [of "xs @ [x]" "ys @ [y]"] by simp
  moreover have "levenshtein (rev xs) (y # rev ys) = levenshtein xs (ys @ [y])"
    using levenshtein_rev [of xs "ys @ [y]"] by simp
  moreover have "levenshtein (x # rev xs) (rev ys) = levenshtein (xs @ [x]) ys"
    using levenshtein_rev [of "xs @ [x]" ys] by simp
  ultimately show ?thesis by (simp add: levenshtein_rev)
qed

lemma align_length: "align xs ys k \<Longrightarrow> length xs \<le> length ys + k \<and> length ys \<le> length xs + k"
  by (induction rule: align.induct) auto

lemma levenshtein_length: "length xs \<le> length ys + levenshtein xs ys" "length ys \<le> length xs + levenshtein xs ys"
  using align_length [OF align_levenshtein [of xs ys]] by simp_all

lemma levenshtein_drop_le: "align zs ys k \<Longrightarrow> zs = x # xs \<Longrightarrow> levenshtein xs ys \<le> Suc k"
proof (induction arbitrary: x xs rule: align.induct)
  case Nil
  then show ?case by simp
next
  case (Del xs' ys k x')
  then show ?case using levenshtein_le_align [of xs' ys k] by simp
next
  case (Ins xs' ys k y)
  then show ?case using levenshtein_Ins [of xs y ys] by fastforce
next
  case (Keep xs' ys k x')
  then show ?case using levenshtein_le_align [of xs' ys k] levenshtein_Ins [of xs x' ys] by simp
next
  case (Sub xs' ys k x' y)
  then show ?case using levenshtein_le_align [of xs' ys k] levenshtein_Ins [of xs y ys] by simp
qed

lemma levenshtein_Cons_ge: "levenshtein xs ys \<le> Suc (levenshtein (x # xs) ys)"
  by (rule levenshtein_drop_le [OF align_levenshtein refl])

lemma levenshtein_sym_le: "align xs ys k \<Longrightarrow> align ys xs k"
  by (induction rule: align.induct) (auto intro: align.intros)

lemma levenshtein_sym: "levenshtein xs ys = levenshtein ys xs"
  using levenshtein_le_align [OF levenshtein_sym_le [OF align_levenshtein [of xs ys]]]
        levenshtein_le_align [OF levenshtein_sym_le [OF align_levenshtein [of ys xs]]]
  by simp

lemma levenshtein_snoc_ge1: "levenshtein xs ys \<le> Suc (levenshtein (xs @ [x]) ys)"
  using levenshtein_Cons_ge [of "rev xs" "rev ys" x] levenshtein_rev [of xs ys]
        levenshtein_rev [of "xs @ [x]" ys] by simp

lemma levenshtein_snoc_ge2: "levenshtein xs ys \<le> Suc (levenshtein xs (ys @ [y]))"
  using levenshtein_snoc_ge1 [of ys xs y] by (simp add: levenshtein_sym)

lemma levenshtein_snoc_same: "levenshtein (xs @ [x]) (ys @ [x]) = levenshtein xs ys"
  using levenshtein_snoc_ge1 [of xs ys x] levenshtein_snoc_ge2 [of xs ys x]
  by (simp add: levenshtein_snoc)

lemma levenshtein_snoc_diff:
  "x \<noteq> y \<Longrightarrow> levenshtein (xs @ [x]) (ys @ [y]) =
     1 + min (levenshtein xs ys) (min (levenshtein xs (ys @ [y])) (levenshtein (xs @ [x]) ys))"
  by (simp add: levenshtein_snoc min_def)

lemma levenshtein_refl [simp]: "levenshtein xs xs = 0"
  by (induction xs) simp_all

lemma align_zero: "align xs ys k \<Longrightarrow> k = 0 \<Longrightarrow> xs = ys"
  by (induction rule: align.induct) auto

lemma levenshtein_eq_0: "levenshtein xs ys = 0 \<longleftrightarrow> xs = ys"
  using align_zero [OF align_levenshtein [of xs ys]] by auto

lemma within_exact: "within N (int L) L"
  by (simp add: within_def)

lemma within_le: "within N r L \<Longrightarrow> r \<le> int N \<longleftrightarrow> L \<le> N"
  by (auto simp: within_def)

lemma within_step:
  "within N a A \<Longrightarrow> within N b B \<Longrightarrow> within N c C \<Longrightarrow>
     within N (1 + min a (min b c)) (1 + min A (min B C))"
  unfolding within_def min_def by (auto split: if_splits)

lemma row_ok_root: "row_ok N q [] (map int [0..<length q + 1])"
  unfolding row_ok_def
proof (intro conjI allI impI)
  show "length (map int [0..<length q + 1]) = length q + 1" by simp
next
  fix j assume "j \<le> length q"
  then have "map int [0..<length q + 1] ! j = int j"
    by (simp add: nth_append less_Suc_eq_le del: upt_Suc)
  then show "within N (map int [0..<length q + 1] ! j) (levenshtein [] (take j q))"
    using \<open>j \<le> length q\<close> by (simp add: within_def)
qed

lemma dists_loop_ok:
  assumes prev: "row_ok N q w prev"
    and len: "length ds = length q + 1"
    and hi: "hi \<le> length q"
    and low: "\<forall>j. j \<le> i0 \<and> j \<le> length q \<longrightarrow> within N (ds ! j) (levenshtein (w @ [c]) (take j q))"
    and rest: "\<forall>j. i0 < j \<and> j \<le> length q \<longrightarrow> ds ! j = int N + 1"
  shows "\<exists>ds'. dists_loop q (w @ [c]) (Some prev) [i0..<hi] ds = Inr ds' \<and> length ds' = length q + 1
     \<and> (\<forall>j. j \<le> max i0 hi \<and> j \<le> length q \<longrightarrow> within N (ds' ! j) (levenshtein (w @ [c]) (take j q)))
     \<and> (\<forall>j. max i0 hi < j \<and> j \<le> length q \<longrightarrow> ds' ! j = int N + 1)"
  using len low rest
proof (induction "hi - i0" arbitrary: i0 ds)
  case 0
  then have "[i0..<hi] = []" by simp
  with 0 show ?case by (simp add: max_def)
next
  case (Suc k)
  then have lt: "i0 < hi" by simp
  then have i0q: "i0 < length q" using hi by simp
  have plen: "length prev = length q + 1" using prev by (simp add: row_ok_def)
  have upt: "[i0..<hi] = i0 # [Suc i0..<hi]" using lt by (simp add: upt_conv_Cons)
  let ?w' = "w @ [c]"
  let ?v = "if q ! i0 = c then prev ! i0 else 1 + min (prev ! i0) (min (prev ! (i0 + 1)) (ds ! i0))"
  let ?ds1 = "ds[i0 + 1 := ?v]"
  have tk: "take (Suc i0) q = take i0 q @ [q ! i0]"
    using i0q by (simp add: take_Suc_conv_app_nth)
  have pa: "within N (prev ! i0) (levenshtein w (take i0 q))"
    using prev i0q by (simp add: row_ok_def)
  have pb: "within N (prev ! (i0 + 1)) (levenshtein w (take (Suc i0) q))"
    using prev i0q by (simp add: row_ok_def)
  have pc: "within N (ds ! i0) (levenshtein ?w' (take i0 q))"
    using Suc.prems(2) i0q by simp
  have v: "within N ?v (levenshtein ?w' (take (Suc i0) q))"
  proof (cases "q ! i0 = c")
    case True
    then show ?thesis using pa by (simp add: tk levenshtein_snoc_same)
  next
    case False
    then have "levenshtein ?w' (take (Suc i0) q) =
       1 + min (levenshtein w (take i0 q)) (min (levenshtein w (take (Suc i0) q)) (levenshtein ?w' (take i0 q)))"
      using levenshtein_snoc_diff [of c "q ! i0" w "take i0 q"] by (simp add: tk)
    then show ?thesis using False within_step [OF pa pb pc] by simp
  qed
  have step: "dists_loop q ?w' (Some prev) [i0..<hi] ds = dists_loop q ?w' (Some prev) [Suc i0..<hi] ?ds1"
    using i0q plen by (simp add: upt)
  have len1: "length ?ds1 = length q + 1" using Suc.prems(1) by simp
  have low1: "\<forall>j. j \<le> Suc i0 \<and> j \<le> length q \<longrightarrow> within N (?ds1 ! j) (levenshtein ?w' (take j q))"
  proof (intro allI impI)
    fix j assume j: "j \<le> Suc i0 \<and> j \<le> length q"
    show "within N (?ds1 ! j) (levenshtein ?w' (take j q))"
    proof (cases "j = Suc i0")
      case True
      then show ?thesis using v Suc.prems(1) i0q by simp
    next
      case False
      then have "j \<le> i0" using j by simp
      then show ?thesis using Suc.prems(2) j False by simp
    qed
  qed
  have rest1: "\<forall>j. Suc i0 < j \<and> j \<le> length q \<longrightarrow> ?ds1 ! j = int N + 1"
    using Suc.prems(3) by simp
  have k: "k = hi - Suc i0" using Suc.hyps(2) by simp
  from Suc.hyps(1) [OF k len1 low1 rest1]
  obtain ds' where r: "dists_loop q ?w' (Some prev) [Suc i0..<hi] ?ds1 = Inr ds'"
      "length ds' = length q + 1"
      "\<forall>j. j \<le> max (Suc i0) hi \<and> j \<le> length q \<longrightarrow> within N (ds' ! j) (levenshtein ?w' (take j q))"
      "\<forall>j. max (Suc i0) hi < j \<and> j \<le> length q \<longrightarrow> ds' ! j = int N + 1"
    by blast
  have m: "max (Suc i0) hi = max i0 hi" using lt by simp
  show ?case using r step unfolding m by simp
qed

lemma get_dists_root:
  "parent (h ! s) = None \<Longrightarrow> get_levenshtein_dists h s q n = Inr (map int [0..<length q + 1])"
  by (simp add: get_levenshtein_dists_def)

lemma get_dists_child:
  assumes par: "parent (h ! s) = Some p"
    and wd: "word (h ! s) = word (h ! p) @ [c]"
    and pd: "dists (h ! p) = Some prev"
    and prev: "row_ok N q (word (h ! p)) prev"
  shows "\<exists>r. get_levenshtein_dists h s q (int N) = Inr r \<and> row_ok N q (word (h ! s)) r"
proof -
  let ?w = "word (h ! p)" and ?m = "length q"
  let ?w' = "?w @ [c]"
  let ?d = "length ?w'"
  let ?ds0 = "(replicate (?m + 1) (int N + 1))[0 := int ?d]"
  let ?lo = "nat (max 0 (int ?d - int N - 1))"
  let ?hi = "nat (min (int ?m) (int ?d + int N + 1))"
  have g: "get_levenshtein_dists h s q (int N) = dists_loop q ?w' (Some prev) [?lo..<?hi] ?ds0"
    using par wd pd by (simp add: get_levenshtein_dists_def Let_def)
  have len: "length ?ds0 = ?m + 1" by simp
  have hi: "?hi \<le> ?m" by simp
  have lb: "\<And>j. j \<le> ?m \<Longrightarrow> ?d \<le> j + levenshtein ?w' (take j q)"
    using levenshtein_length(1) [of ?w'] by (metis length_take min.absorb2)
  have ub: "\<And>j. j \<le> ?m \<Longrightarrow> j \<le> ?d + levenshtein ?w' (take j q)"
    using levenshtein_length(2) [of _ ?w'] by (metis length_take min.absorb2)
  have low: "\<forall>j. j \<le> ?lo \<and> j \<le> ?m \<longrightarrow> within N (?ds0 ! j) (levenshtein ?w' (take j q))"
  proof (intro allI impI)
    fix j assume j: "j \<le> ?lo \<and> j \<le> ?m"
    show "within N (?ds0 ! j) (levenshtein ?w' (take j q))"
    proof (cases j)
      case 0
      then show ?thesis by (simp add: within_def)
    next
      case (Suc j')
      then have "?ds0 ! j = int N + 1" using j by simp
      moreover have "N < levenshtein ?w' (take j q)" using lb [of j] j Suc by (simp split: if_splits) linarith
      ultimately show ?thesis by (simp add: within_def)
    qed
  qed
  have rest: "\<forall>j. ?lo < j \<and> j \<le> ?m \<longrightarrow> ?ds0 ! j = int N + 1"
    by auto
  from dists_loop_ok [OF prev len hi low rest]
  obtain ds' where r: "dists_loop q ?w' (Some prev) [?lo..<?hi] ?ds0 = Inr ds'"
      "length ds' = ?m + 1"
      "\<forall>j. j \<le> max ?lo ?hi \<and> j \<le> ?m \<longrightarrow> within N (ds' ! j) (levenshtein ?w' (take j q))"
      "\<forall>j. max ?lo ?hi < j \<and> j \<le> ?m \<longrightarrow> ds' ! j = int N + 1"
    by blast
  have "row_ok N q ?w' ds'"
    unfolding row_ok_def
  proof (intro conjI allI impI)
    show "length ds' = ?m + 1" by (rule r(2))
  next
    fix j assume j: "j \<le> ?m"
    show "within N (ds' ! j) (levenshtein ?w' (take j q))"
    proof (cases "j \<le> max ?lo ?hi")
      case True
      then show ?thesis using r(3) j by simp
    next
      case False
      then have "ds' ! j = int N + 1" using r(4) j by simp
      moreover have "N < levenshtein ?w' (take j q)" using ub [of j] j False by (simp split: if_splits)
      ultimately show ?thesis by (simp add: within_def)
    qed
  qed
  then show ?thesis using g r(1) wd by simp
qed

lemma row_ok_last: 
  assumes "row_ok N q w r"
  shows "last r \<le> int N \<longleftrightarrow> levenshtein w q \<le> N"
proof -
  have "r \<noteq> []" "length r = length q + 1" using assms by (auto simp: row_ok_def)
  then have "last r = r ! length q" by (simp add: last_conv_nth)
  moreover have "\<forall>j\<le>length q. within N (r ! j) (levenshtein w (take j q))"
    using assms by (simp add: row_ok_def)
  then have "within N (r ! length q) (levenshtein w (take (length q) q))" by blast
  ultimately show ?thesis using within_le [of N "r ! length q" "levenshtein w q"] by simp
qed

lemma row_ok_min:
  assumes "row_ok N q w r"
  shows "min_list r \<le> int N \<longleftrightarrow> (\<exists>j\<le>length q. levenshtein w (take j q) \<le> N)"
proof -
  have ne: "r \<noteq> []" and len: "length r = length q + 1" using assms by (auto simp: row_ok_def)
  have w: "\<And>j. j \<le> length q \<Longrightarrow> (r ! j \<le> int N \<longleftrightarrow> levenshtein w (take j q) \<le> N)"
    using assms within_le by (simp add: row_ok_def)
  have "min_list r \<le> int N \<longleftrightarrow> (\<exists>x\<in>set r. x \<le> int N)"
    using ne by (simp add: min_list_Min Min_le_iff)
  also have "\<dots> \<longleftrightarrow> (\<exists>j\<le>length q. r ! j \<le> int N)"
  proof
    assume "\<exists>x\<in>set r. x \<le> int N"
    then obtain i where "i < length r" "r ! i \<le> int N" by (auto simp: in_set_conv_nth)
    then show "\<exists>j\<le>length q. r ! j \<le> int N" using len by (intro exI [of _ i]) simp
  next
    assume "\<exists>j\<le>length q. r ! j \<le> int N"
    then obtain j where "j \<le> length q" "r ! j \<le> int N" by blast
    then show "\<exists>x\<in>set r. x \<le> int N" using len by (intro bexI [of _ "r ! j"]) simp_all
  qed
  also have "\<dots> \<longleftrightarrow> (\<exists>j\<le>length q. levenshtein w (take j q) \<le> N)"
    using w by auto
  finally show ?thesis .
qed

lemma prune_step:
  assumes "\<forall>j\<le>length q. N < levenshtein w (take j q)"
  shows "j \<le> length q \<Longrightarrow> N < levenshtein (w @ [c]) (take j q)"
proof (induction j)
  case 0
  then show ?case using assms [rule_format, of 0] by simp
next
  case (Suc j)
  then have tk: "take (Suc j) q = take j q @ [q ! j]" by (simp add: take_Suc_conv_app_nth)
  have a: "N < levenshtein w (take j q)" using assms Suc by simp
  have b: "N < levenshtein w (take j q @ [q ! j])" using assms [rule_format, of "Suc j"] Suc tk by simp
  have c: "N < levenshtein (w @ [c]) (take j q)" using Suc by simp
  show ?case unfolding tk levenshtein_snoc using a b c by (simp split: if_splits)
qed

lemma prune:
  "\<forall>j\<le>length q. N < levenshtein w (take j q) \<Longrightarrow> N < levenshtein (w @ v) q"
proof (induction v arbitrary: w)
  case Nil
  then show ?case by auto
next
  case (Cons c v)
  have "\<forall>j\<le>length q. N < levenshtein (w @ [c]) (take j q)"
    using prune_step [OF Cons.prems] by simp
  from Cons.IH [OF this] show ?case by simp
qed

lemma wf_child:
  "wf_heap h \<Longrightarrow> a < length h \<Longrightarrow> (c, b) \<in> set (children (h ! a)) \<Longrightarrow>
     a < b \<and> b < length h \<and> parent (h ! b) = Some a \<and> word (h ! b) = word (h ! a) @ [c]"
  unfolding wf_heap_def by blast

lemma wf_parent:
  assumes "wf_heap h" "b < length h" "0 < b"
  shows "\<exists>a c. a < b \<and> parent (h ! b) = Some a \<and> (c, b) \<in> set (children (h ! a))
           \<and> word (h ! b) = word (h ! a) @ [c]"
proof -
  from assms obtain a c where ac: "a < length h" "parent (h ! b) = Some a" "(c, b) \<in> set (children (h ! a))"
    unfolding wf_heap_def by blast
  from wf_child [OF assms(1) ac(1) ac(3)] ac show ?thesis by blast
qed

lemma wf_root: "wf_heap h \<Longrightarrow> 0 < length h \<and> parent (h ! 0) = None \<and> word (h ! 0) = []"
  unfolding wf_heap_def by simp

lemma wf_word_Nil: 
  assumes "wf_heap h" "a < length h" "word (h ! a) = []"
  shows "a = 0"
proof (rule ccontr)
  assume "a \<noteq> 0"
  then have "0 < a" by simp
  from wf_parent [OF assms(1,2) this] assms(3) show False by auto
qed

lemma wf_keys:
  assumes "wf_heap h" "a < length h" "(c, b) \<in> set (children (h ! a))" "(c, b') \<in> set (children (h ! a))"
  shows "b = b'"
proof -
  have "distinct (map fst (children (h ! a)))" using assms(1,2) unfolding wf_heap_def by blast
  then show ?thesis using assms(3,4) by (rule eq_key_imp_eq_value)
qed

lemma word_inj:
  assumes wf: "wf_heap h"
  shows "a < length h \<Longrightarrow> b < length h \<Longrightarrow> word (h ! a) = u \<Longrightarrow> word (h ! b) = u \<Longrightarrow> a = b"
proof (induction u arbitrary: a b rule: rev_induct)
  case Nil
  then show ?case using wf_word_Nil [OF wf, of a] wf_word_Nil [OF wf, of b] by simp
next
  case (snoc c u)
  have a0: "0 < a" using snoc.prems wf_root [OF wf] by (cases a) auto
  have b0: "0 < b" using snoc.prems wf_root [OF wf] by (cases b) auto
  from wf_parent [OF wf snoc.prems(1) a0] obtain pa ca where
    pa: "pa < a" "(ca, a) \<in> set (children (h ! pa))" "word (h ! a) = word (h ! pa) @ [ca]" by blast
  from wf_parent [OF wf snoc.prems(2) b0] obtain pb cb where
    pb: "pb < b" "(cb, b) \<in> set (children (h ! pb))" "word (h ! b) = word (h ! pb) @ [cb]" by blast
  have eq: "word (h ! pa) = u" "ca = c" "word (h ! pb) = u" "cb = c"
    using pa(3) pb(3) snoc.prems(3,4) by auto
  have "pa = pb" using snoc.IH [of pa pb] pa(1) pb(1) snoc.prems(1,2) eq by simp
  then show ?case using wf_keys [OF wf _ pa(2)] pb(2) pa(1) snoc.prems(1) eq by simp
qed

lemma prefix_closed:
  assumes wf: "wf_heap h"
  shows "a < length h \<Longrightarrow> word (h ! a) = u @ v \<Longrightarrow> \<exists>b<length h. word (h ! b) = u"
proof (induction v arbitrary: a rule: rev_induct)
  case Nil
  then show ?case by auto
next
  case (snoc c v)
  have a0: "0 < a" using snoc.prems wf_root [OF wf] by (cases a) auto
  from wf_parent [OF wf snoc.prems(1) a0] obtain pa ca where
    pa: "pa < a" "word (h ! a) = word (h ! pa) @ [ca]" by blast
  then have "word (h ! pa) = u @ v" using snoc.prems(2) by simp
  then show ?case using snoc.IH [of pa] pa(1) snoc.prems(1) by simp
qed

lemma below_self: "s < length h \<Longrightarrow> s \<in> below h s"
  by (simp add: below_def)

lemma below_child:
  assumes wf: "wf_heap h" and s: "s < length h" and k: "(c, k) \<in> set (children (h ! s))"
  shows "below h k \<subseteq> below h s - {s}"
proof -
  have wk: "word (h ! k) = word (h ! s) @ [c]" using wf_child [OF wf s k] by simp
  show ?thesis
  proof
    fix a assume "a \<in> below h k"
    then have a: "a < length h" "prefix (word (h ! s) @ [c]) (word (h ! a))"
      by (simp_all add: below_def wk)
    then have "prefix (word (h ! s)) (word (h ! a))" using append_prefixD by blast
    moreover have "a \<noteq> s" using a(2) by (auto simp: prefix_def)
    ultimately show "a \<in> below h s - {s}" using a(1) by (simp add: below_def)
  qed
qed

lemma below_split:
  assumes wf: "wf_heap h" and s: "s < length h"
  shows "below h s = insert s (\<Union>k\<in>snd ` set (children (h ! s)). below h k)"
proof (intro equalityI subsetI)
  fix a assume a: "a \<in> below h s"
  then have al: "a < length h" and pre: "prefix (word (h ! s)) (word (h ! a))"
    by (simp_all add: below_def)
  show "a \<in> insert s (\<Union>k\<in>snd ` set (children (h ! s)). below h k)"
  proof (cases "a = s")
    case True
    then show ?thesis by simp
  next
    case False
    from pre obtain v where v: "word (h ! a) = word (h ! s) @ v" by (auto simp: prefix_def)
    have "v \<noteq> []" using word_inj [OF wf al s] v False by auto
    then obtain c v' where cv: "v = c # v'" by (cases v) auto
    then have "word (h ! a) = (word (h ! s) @ [c]) @ v'" using v by simp
    from prefix_closed [OF wf al this] obtain b where
      b: "b < length h" "word (h ! b) = word (h ! s) @ [c]" by blast
    have b0: "0 < b" using b wf_root [OF wf] by (cases b) auto
    from wf_parent [OF wf b(1) b0] obtain pb cb where
      pb: "pb < b" "(cb, b) \<in> set (children (h ! pb))" "word (h ! b) = word (h ! pb) @ [cb]" by blast
    have "word (h ! pb) = word (h ! s)" using pb(3) b(2) by simp
    then have "pb = s" using word_inj [OF wf _ s] pb(1) b(1) by simp
    then have "b \<in> snd ` set (children (h ! s))" using pb(2) by force
    moreover have "a \<in> below h b" using al b(2) v cv by (simp add: below_def prefix_def)
    ultimately show ?thesis by blast
  qed
next
  fix a assume "a \<in> insert s (\<Union>k\<in>snd ` set (children (h ! s)). below h k)"
  then show "a \<in> below h s" using below_self [OF s] below_child [OF wf s] by fastforce
qed

lemma hits_split:
  assumes wf: "wf_heap h" and s: "s < length h"
  shows "hits N q h s =
     (if is_word (h ! s) \<and> levenshtein (word (h ! s)) q \<le> N then {word (h ! s)} else {})
       \<union> (\<Union>k\<in>snd ` set (children (h ! s)). hits N q h k)"
  unfolding hits_def below_split [OF wf s] by auto

lemma hits_pruned:
  assumes "\<forall>j\<le>length q. N < levenshtein (word (h ! s)) (take j q)"
  shows "hits N q h s = {}"
proof -
  have "\<And>a. prefix (word (h ! s)) (word (h ! a)) \<Longrightarrow> N < levenshtein (word (h ! a)) q"
    using prune [OF assms] by (auto simp: prefix_def)
  then show ?thesis by (fastforce simp: hits_def below_def)
qed

lemma hits_root:
  "wf_heap h \<Longrightarrow> hits N q h 0 = {word (h ! a) |a. a < length h \<and> is_word (h ! a) \<and> levenshtein (word (h ! a)) q \<le> N}"
  using wf_root [of h] by (simp add: hits_def below_def)

lemma effect_refl: "effect N q h {} h"
  by (simp add: effect_def)

lemma effect_fields:
  "effect N q h0 A h \<Longrightarrow> a < length h0 \<Longrightarrow>
     word (h ! a) = word (h0 ! a) \<and> parent (h ! a) = parent (h0 ! a) \<and>
     children (h ! a) = children (h0 ! a) \<and> is_word (h ! a) = is_word (h0 ! a)"
  by (simp add: effect_def)

lemma effect_length: "effect N q h0 A h \<Longrightarrow> length h = length h0"
  by (simp add: effect_def)

lemma effect_row:
  "effect N q h0 A h \<Longrightarrow> a < length h0 \<Longrightarrow> a \<in> A \<Longrightarrow>
     \<exists>r. dists (h ! a) = Some r \<and> row_ok N q (word (h0 ! a)) r"
  unfolding effect_def by (auto split: if_splits)

lemma effect_step:
  assumes "effect N q h0 A h" "s < length h0" "row_ok N q (word (h0 ! s)) r"
  shows "effect N q h0 (insert s A) (h[s := (h ! s)\<lparr>dists := Some r\<rparr>])"
  using assms unfolding effect_def by (auto simp: nth_list_update)

lemma effect_wf:
  assumes wf: "wf_heap h0" and e: "effect N q h0 A h"
  shows "wf_heap h"
proof -
  have len: "length h = length h0" using e by (simp add: effect_def)
  have f: "\<And>a. a < length h0 \<Longrightarrow> word (h ! a) = word (h0 ! a) \<and> parent (h ! a) = parent (h0 ! a) \<and>
     children (h ! a) = children (h0 ! a)"
    using e by (simp add: effect_def)
  have r: "0 < length h0" "parent (h0 ! 0) = None" "word (h0 ! 0) = []" using wf_root [OF wf] by simp_all
  have "h \<noteq> []" using r(1) len by (cases h) simp_all
  moreover have "parent (h ! 0) = None" "word (h ! 0) = []" using f [OF r(1)] r(2,3) by simp_all
  ultimately have c1: "h \<noteq> [] \<and> parent (h ! 0) = None \<and> word (h ! 0) = []" by simp
  have c2: "\<forall>a<length h. distinct (map fst (children (h ! a))) \<and>
        (\<forall>c b. (c, b) \<in> set (children (h ! a)) \<longrightarrow>
           a < b \<and> b < length h \<and> parent (h ! b) = Some a \<and> word (h ! b) = word (h ! a) @ [c])"
  proof (intro allI impI conjI)
    fix a assume a: "a < length h"
    then have a0: "a < length h0" using len by simp
    then have "distinct (map fst (children (h0 ! a)))" using wf unfolding wf_heap_def by blast
    then show "distinct (map fst (children (h ! a)))" using f [OF a0] by simp
  next
    fix a c b assume a: "a < length h" and cb: "(c, b) \<in> set (children (h ! a))"
    then have cb0: "(c, b) \<in> set (children (h0 ! a))" and a0: "a < length h0" using f [of a] len by simp_all
    from wf_child [OF wf a0 cb0] have w: "a < b" "b < length h0" "parent (h0 ! b) = Some a" 
      "word (h0 ! b) = word (h0 ! a) @ [c]" by simp_all
    show "a < b" by (rule w(1))
    show "b < length h" using w(2) len by simp
    show "parent (h ! b) = Some a" using w f [of b] by simp
    show "word (h ! b) = word (h ! a) @ [c]" using w f [of b] f [of a] a0 by simp
  qed
  have c3: "\<forall>b<length h. 0 < b \<longrightarrow> (\<exists>a<length h. \<exists>c. parent (h ! b) = Some a \<and> (c, b) \<in> set (children (h ! a)))"
  proof (intro allI impI)
    fix b assume b: "b < length h" "0 < b"
    then have b0: "b < length h0" using len by simp
    from wf_parent [OF wf b0 b(2)] obtain a c where
      ac: "a < b" "parent (h0 ! b) = Some a" "(c, b) \<in> set (children (h0 ! a))" by blast
    then have "a < length h0" using b0 by simp
    then show "\<exists>a<length h. \<exists>c. parent (h ! b) = Some a \<and> (c, b) \<in> set (children (h ! a))"
      using ac f [of a] f [of b] b0 len by auto
  qed
  show ?thesis unfolding wf_heap_def using c1 c2 c3 by blast
qed

lemma get_dists_cong:
  assumes "parent (h1 ! a) = parent (h ! a)" "word (h1 ! a) = word (h ! a)"
    and "\<And>p. parent (h ! a) = Some p \<Longrightarrow> dists (h1 ! p) = dists (h ! p)"
  shows "get_levenshtein_dists h1 a q n = get_levenshtein_dists h a q n"
proof (cases "parent (h ! a)")
  case None
  then show ?thesis using assms(1) by (simp add: get_levenshtein_dists_def)
next
  case (Some p)
  then show ?thesis using assms(1,2) assms(3) [OF Some] by (simp add: get_levenshtein_dists_def)
qed

lemma visit_result:
  assumes wf: "wf_heap h0" and e: "effect N q h0 A h" and s: "s < length h0"
    and pk: "s = 0 \<or> (\<exists>p. parent (h0 ! s) = Some p \<and> p \<in> A)"
  shows "\<exists>r. row_ok N q (word (h0 ! s)) r \<and> get_levenshtein_dists h s q (int N) = Inr r \<and>
     visit q (int N) s (M, h) =
       Inr (if is_word (h0 ! s) \<and> levenshtein (word (h0 ! s)) q \<le> N then insert (word (h0 ! s)) M else M,
            h[s := (h ! s)\<lparr>dists := Some r\<rparr>],
            if \<exists>j\<le>length q. levenshtein (word (h0 ! s)) (take j q) \<le> N
            then map snd (children (h0 ! s)) else [])"
proof -
  have len: "length h = length h0" using e by (simp add: effect_def)
  note fs = effect_fields [OF e s]
  have "\<exists>r. get_levenshtein_dists h s q (int N) = Inr r \<and> row_ok N q (word (h0 ! s)) r"
  proof (cases "s = 0")
    case True
    then have "parent (h ! s) = None" "word (h0 ! s) = []" using wf_root [OF wf] fs by simp_all
    then show ?thesis using get_dists_root [of h s q "int N"] row_ok_root [of N q] by simp
  next
    case False
    then have s0: "0 < s" by simp
    from wf_parent [OF wf s s0] obtain p c where
      p: "p < s" "parent (h0 ! s) = Some p" "word (h0 ! s) = word (h0 ! p) @ [c]" by blast
    have pl: "p < length h0" using p(1) s by simp
    have "p \<in> A" using pk False p(2) by auto
    from effect_row [OF e pl this] obtain prev where
      prev: "dists (h ! p) = Some prev" "row_ok N q (word (h0 ! p)) prev" by blast
    note fp = effect_fields [OF e pl]
    have "\<exists>r. get_levenshtein_dists h s q (int N) = Inr r \<and> row_ok N q (word (h ! s)) r"
      by (rule get_dists_child [where p = p and c = c and prev = prev])
         (use p fs fp prev in simp_all)
    then show ?thesis using fs by simp
  qed
  then obtain r where r: "get_levenshtein_dists h s q (int N) = Inr r" "row_ok N q (word (h0 ! s)) r"
    by blast
  have sl: "s < length h" using s len by simp
  define P where "P \<longleftrightarrow> (\<exists>j\<le>length q. levenshtein (word (h0 ! s)) (take j q) \<le> N)"
  have m: "min_list r \<le> int N \<longleftrightarrow> P" using row_ok_min [OF r(2)] by (simp add: P_def)
  have l: "last r \<le> int N \<longleftrightarrow> levenshtein (word (h0 ! s)) q \<le> N" by (rule row_ok_last [OF r(2)])
  have v: "visit q (int N) s (M, h) =
       Inr (if is_word (h0 ! s) \<and> levenshtein (word (h0 ! s)) q \<le> N then insert (word (h0 ! s)) M else M,
            h[s := (h ! s)\<lparr>dists := Some r\<rparr>],
            if P then map snd (children (h0 ! s)) else [])"
    using r(1) fs sl by (simp add: visit_def Let_def m l)
  show ?thesis
    by (intro exI [of _ r] conjI r(2) r(1) v [unfolded P_def])
qed

lemma kidsD:
  assumes "wf_heap h" "s < length h" "k \<in> kids h s"
  shows "\<exists>c. (c, k) \<in> set (children (h ! s)) \<and> s < k \<and> k < length h \<and> parent (h ! k) = Some s
            \<and> word (h ! k) = word (h ! s) @ [c]"
proof -
  from assms(3) obtain c where c: "(c, k) \<in> set (children (h ! s))" by (auto simp: kids_def)
  from wf_child [OF assms(1,2) c] c show ?thesis by blast
qed

lemma distinct_snd:
  "distinct (map fst xs) \<Longrightarrow> (\<forall>c c' k. (c, k) \<in> set xs \<longrightarrow> (c', k) \<in> set xs \<longrightarrow> c = c')
     \<Longrightarrow> distinct (map snd xs)"
proof (induction xs)
  case Nil
  then show ?case by simp
next
  case (Cons x xs)
  obtain c k where x: "x = (c, k)" by (cases x)
  have "k \<notin> snd ` set xs"
  proof
    assume "k \<in> snd ` set xs"
    then obtain c' where c': "(c', k) \<in> set xs" by auto
    then have "c = c'" using Cons.prems(2) x by auto
    then show False using Cons.prems(1) x c' by force
  qed
  moreover have "distinct (map snd xs)" using Cons by auto
  ultimately show ?case using x by simp
qed

lemma kids_distinct:
  assumes wf: "wf_heap h" and s: "s < length h"
  shows "distinct (map snd (children (h ! s)))"
proof (rule distinct_snd)
  show "distinct (map fst (children (h ! s)))" using wf s unfolding wf_heap_def by blast
next
  show "\<forall>c c' k. (c, k) \<in> set (children (h ! s)) \<longrightarrow> (c', k) \<in> set (children (h ! s)) \<longrightarrow> c = c'"
  proof (intro allI impI)
    fix c c' k assume "(c, k) \<in> set (children (h ! s))" "(c', k) \<in> set (children (h ! s))"
    then show "c = c'" using wf_child [OF wf s, of c k] wf_child [OF wf s, of c' k] by simp
  qed
qed

lemma kids_incomparable:
  assumes wf: "wf_heap h" and s: "s < length h" and k: "k \<in> kids h s" "k' \<in> kids h s" "k \<noteq> k'"
  shows "\<not> prefix (word (h ! k)) (word (h ! k'))"
proof -
  from kidsD [OF wf s k(1)] obtain c where c: "(c, k) \<in> set (children (h ! s))"
    "word (h ! k) = word (h ! s) @ [c]" by blast
  from kidsD [OF wf s k(2)] obtain c' where c': "(c', k') \<in> set (children (h ! s))"
    "word (h ! k') = word (h ! s) @ [c']" by blast
  have "c \<noteq> c'" using wf_keys [OF wf s c(1)] c'(1) k(3) by auto
  then show ?thesis using c(2) c'(2) by simp
qed

lemma antichainD:
  "antichain h S \<Longrightarrow> s \<in> S \<Longrightarrow> s' \<in> S \<Longrightarrow> s \<noteq> s' \<Longrightarrow> \<not> prefix (word (h ! s)) (word (h ! s'))"
  unfolding antichain_def by simp

lemma separateD:
  "separate h L S \<Longrightarrow> a \<in> L \<Longrightarrow> s \<in> S \<Longrightarrow> \<not> prefix (word (h ! s)) (word (h ! a))"
  unfolding separate_def by simp

lemma antichain_step:
  assumes wf: "wf_heap h" and s: "s < length h" "s \<in> S" and a: "antichain h S"
    and P: "P \<subseteq> kids h s"
  shows "antichain h ((S - {s}) \<union> P)"
  unfolding antichain_def
proof (intro ballI impI)
  fix x y assume x: "x \<in> (S - {s}) \<union> P" and y: "y \<in> (S - {s}) \<union> P" and ne: "x \<noteq> y"
  have old: "\<not> prefix (word (h ! s)) (word (h ! u)) \<and> \<not> prefix (word (h ! u)) (word (h ! s))"
    if "u \<in> S - {s}" for u
    using antichainD [OF a s(2), of u] antichainD [OF a _ s(2), of u] that by simp
  have kid: "\<And>k. k \<in> P \<Longrightarrow> \<exists>c. word (h ! k) = word (h ! s) @ [c]"
    using kidsD [OF wf s(1)] P by blast
  show "\<not> prefix (word (h ! x)) (word (h ! y))"
  proof (cases "x \<in> P")
    case True
    then obtain c where c: "word (h ! x) = word (h ! s) @ [c]" using kid by blast
    show ?thesis
    proof (cases "y \<in> P")
      case True
      then have "x \<in> kids h s" "y \<in> kids h s" using \<open>x \<in> P\<close> P by auto
      then show ?thesis using kids_incomparable [OF wf s(1) _ _ ne] by simp
    next
      case False
      then have "y \<in> S - {s}" using y by simp
      then have "\<not> prefix (word (h ! s)) (word (h ! y))" using old [of y] by simp
      then show ?thesis using append_prefixD [of "word (h ! s)" "[c]" "word (h ! y)"] c by auto
    qed
  next
    case False
    then have xs: "x \<in> S - {s}" using x by simp
    show ?thesis
    proof (cases "y \<in> P")
      case True
      then obtain c where c: "word (h ! y) = word (h ! s) @ [c]" using kid by blast
      show ?thesis
      proof
        assume "prefix (word (h ! x)) (word (h ! y))"
        then have "word (h ! x) = word (h ! s) @ [c] \<or> prefix (word (h ! x)) (word (h ! s))"
          by (simp add: c prefix_snoc)
        then show False using old [OF xs] by auto
      qed
    next
      case False
      then have "y \<in> S" using y by simp
      then show ?thesis using antichainD [OF a _ _ ne] xs by simp
    qed
  qed
qed

lemma kids_fresh:
  assumes wf: "wf_heap h" and s: "s < length h" "s \<in> S" and a: "antichain h S"
  shows "kids h s \<inter> S = {}"
proof (rule ccontr)
  assume "kids h s \<inter> S \<noteq> {}"
  then obtain k where k: "k \<in> kids h s" "k \<in> S" by blast
  from kidsD [OF wf s(1) k(1)] obtain c where c: "s < k" "word (h ! k) = word (h ! s) @ [c]" by blast
  then have "s \<noteq> k" "prefix (word (h ! s)) (word (h ! k))" by simp_all
  then show False using antichainD [OF a s(2) k(2)] by simp
qed

lemma separate_step:
  assumes wf: "wf_heap h" and s: "s < length h" "s \<in> S" and a: "antichain h S"
    and sep: "separate h L S" and P: "P \<subseteq> kids h s"
  shows "separate h (insert s L) ((S - {s}) \<union> P)" and "s \<notin> L"
proof -
  show "s \<notin> L" using separateD [OF sep _ s(2), of s] by auto
  have kid: "\<And>k. k \<in> P \<Longrightarrow> \<exists>c. word (h ! k) = word (h ! s) @ [c]"
    using kidsD [OF wf s(1)] P by blast
  show "separate h (insert s L) ((S - {s}) \<union> P)"
    unfolding separate_def
  proof (intro ballI)
    fix x y assume x: "x \<in> insert s L" and y: "y \<in> (S - {s}) \<union> P"
    show "\<not> prefix (word (h ! y)) (word (h ! x))"
    proof (cases "y \<in> P")
      case True
      then obtain c where c: "word (h ! y) = word (h ! s) @ [c]" using kid by blast
      show ?thesis
      proof (cases "x = s")
        case True
        then show ?thesis using c by simp
      next
        case False
        then have "x \<in> L" using x by simp
        then have "\<not> prefix (word (h ! s)) (word (h ! x))" using separateD [OF sep _ s(2)] by simp
        then show ?thesis using append_prefixD [of "word (h ! s)" "[c]" "word (h ! x)"] c by auto
      qed
    next
      case False
      then have ys: "y \<in> S" "y \<noteq> s" using y by auto
      show ?thesis
      proof (cases "x = s")
        case True
        then show ?thesis using antichainD [OF a ys(1) s(2) ys(2)] by simp
      next
        case False
        then have "x \<in> L" using x by simp
        then show ?thesis using separateD [OF sep _ ys(1)] by simp
      qed
    qed
  qed
qed

lemma ready_step:
  assumes wf: "wf_heap h" and s: "s < length h" and r: "ready h L S" and P: "P \<subseteq> kids h s"
  shows "ready h (insert s L) ((S - {s}) \<union> P)"
  unfolding ready_def
proof (intro ballI)
  fix x assume x: "x \<in> (S - {s}) \<union> P"
  show "x < length h \<and> (x = 0 \<or> (\<exists>p. parent (h ! x) = Some p \<and> p \<in> insert s L))"
  proof (cases "x \<in> P")
    case True
    then show ?thesis using kidsD [OF wf s, of x] P by auto
  next
    case False
    then have "x \<in> S" using x by simp
    then show ?thesis using r unfolding ready_def by auto
  qed
qed

lemma parents_first_snoc:
  assumes "parents_first h l" "s = 0 \<or> (\<exists>p. parent (h ! s) = Some p \<and> p \<in> set l)"
  shows "parents_first h (l @ [s])"
  unfolding parents_first_def
proof (intro allI impI)
  fix i assume i: "i < length (l @ [s])"
  show "(l @ [s]) ! i = 0 \<or> (\<exists>p. parent (h ! ((l @ [s]) ! i)) = Some p \<and> p \<in> set (take i (l @ [s])))"
  proof (cases "i < length l")
    case True
    then show ?thesis using assms(1) unfolding parents_first_def by (simp add: nth_append)
  next
    case False
    then have "i = length l" using i by simp
    then show ?thesis using assms(2) by simp
  qed
qed

lemma hits_step:
  assumes wf: "wf_heap h" and s: "s < length h" "s \<in> S"
  shows "(if is_word (h ! s) \<and> levenshtein (word (h ! s)) q \<le> N then insert (word (h ! s)) M else M)
       \<union> (\<Union>k\<in>(S - {s}) \<union> (if \<exists>j\<le>length q. levenshtein (word (h ! s)) (take j q) \<le> N then kids h s else {}). hits N q h k)
     = M \<union> (\<Union>k\<in>S. hits N q h k)"
proof -
  have S: "(\<Union>k\<in>S. hits N q h k) = hits N q h s \<union> (\<Union>k\<in>S - {s}. hits N q h k)"
    using s(2) by auto
  show ?thesis
  proof (cases "\<exists>j\<le>length q. levenshtein (word (h ! s)) (take j q) \<le> N")
    case True
    then show ?thesis unfolding S hits_split [OF wf s(1)] kids_def by auto
  next
    case False
    then have p: "\<forall>j\<le>length q. N < levenshtein (word (h ! s)) (take j q)" by (meson not_le)
    then have "N < levenshtein (word (h ! s)) q" by force
    then show ?thesis unfolding S hits_pruned [OF p] using False by auto
  qed
qed

lemma below_step:
  assumes wf: "wf_heap h" and s: "s < length h" "s \<in> S" and a: "antichain h S"
    and P: "P \<subseteq> kids h s"
  shows "(\<Union>k\<in>(S - {s}) \<union> P. below h k) \<subset> (\<Union>k\<in>S. below h k)"
proof -
  have kid: "\<And>k. k \<in> P \<Longrightarrow> below h k \<subseteq> below h s - {s}"
    using kidsD [OF wf s(1)] below_child [OF wf s(1)] P by blast
  have old: "s \<notin> below h k" if "k \<in> S - {s}" for k
    using antichainD [OF a _ s(2), of k] that by (simp add: below_def)
  have "s \<in> (\<Union>k\<in>S. below h k)" using below_self [OF s(1)] s(2) by blast
  moreover have "s \<notin> (\<Union>k\<in>(S - {s}) \<union> P. below h k)" using kid old by blast
  moreover have "(\<Union>k\<in>(S - {s}) \<union> P. below h k) \<subseteq> (\<Union>k\<in>S. below h k)" using kid s(2) by blast
  ultimately show ?thesis by blast
qed

lemma below_finite: "finite (\<Union>k\<in>S. below h k)"
proof -
  have "(\<Union>k\<in>S. below h k) \<subseteq> {..<length h}" by (auto simp: below_def)
  then show ?thesis using finite_subset by blast
qed

lemma inv_init:
  assumes "wf_heap h"
  shows "inv N q h (hits N q h 0) [0] {} h []"
  using assms wf_root [OF assms]
  by (simp add: inv_def effect_refl ready_def antichain_def separate_def parents_first_def consistent_def)

lemma inv_final: "inv N q h0 R [] M h l \<Longrightarrow> M = R"
  by (simp add: inv_def)

lemma inv_step:
  assumes i: "inv N q h0 R W M h l" and s: "s \<in> set W"
  shows "\<exists>M1 h1 pushed. visit q (int N) s (M, h) = Inr (M1, h1, pushed) \<and> distinct pushed \<and>
     set pushed \<inter> set W = {} \<and> set pushed \<subseteq> kids h0 s \<and>
     (\<forall>W'. distinct W' \<and> set W' = (set W - {s}) \<union> set pushed \<longrightarrow> inv N q h0 R W' M1 h1 (l @ [s]))"
proof -
  have wf: "wf_heap h0" and e: "effect N q h0 (set l) h" and rd: "ready h0 (set l) (set W)"
    and a: "antichain h0 (set W)" and dl: "distinct l" and sep: "separate h0 (set l) (set W)"
    and pf: "parents_first h0 l" and bl: "set l \<subseteq> {..<length h0}"
    and cs: "consistent q (int N) h l"
    and R: "M \<union> (\<Union>k\<in>set W. hits N q h0 k) = R"
    using i by (simp_all add: inv_def)
  have sl: "s < length h0" and pk: "s = 0 \<or> (\<exists>p. parent (h0 ! s) = Some p \<and> p \<in> set l)"
    using rd s by (simp_all add: ready_def)
  define M1 where "M1 = (if is_word (h0 ! s) \<and> levenshtein (word (h0 ! s)) q \<le> N then insert (word (h0 ! s)) M else M)"
  define opn where "opn \<longleftrightarrow> (\<exists>j\<le>length q. levenshtein (word (h0 ! s)) (take j q) \<le> N)"
  define pushed where "pushed = (if opn then map snd (children (h0 ! s)) else [])"
  from visit_result [OF wf e sl pk, of M] obtain r where
    r: "row_ok N q (word (h0 ! s)) r" and g: "get_levenshtein_dists h s q (int N) = Inr r" and
    v: "visit q (int N) s (M, h) = Inr (M1, h[s := (h ! s)\<lparr>dists := Some r\<rparr>], pushed)"
    unfolding M1_def pushed_def opn_def by blast
  define h1 where "h1 = h[s := (h ! s)\<lparr>dists := Some r\<rparr>]"
  have sub: "set pushed \<subseteq> kids h0 s" by (auto simp add: pushed_def kids_def)
  have dp: "distinct pushed" using kids_distinct [OF wf sl] by (simp add: pushed_def)
  have fresh: "set pushed \<inter> set W = {}" using kids_fresh [OF wf sl s a] sub by blast
  have e1: "effect N q h0 (set (l @ [s])) h1"
    using effect_step [OF e sl r] by (simp add: h1_def)
  have sn: "s \<notin> set l" by (rule separate_step(2) [OF wf sl s a sep sub])
  have pf1: "parents_first h0 (l @ [s])" by (rule parents_first_snoc [OF pf pk])
  have len: "length h = length h0" using e by (rule effect_length)
  have same: "parent (h1 ! a) = parent (h ! a) \<and> word (h1 ! a) = word (h ! a)" for a
    using sl len by (cases "a = s") (simp_all add: h1_def)
  have other: "dists (h1 ! p) = dists (h ! p)" if "p \<noteq> s" for p
    using that by (simp add: h1_def)
  have ps: "p \<noteq> s" if "parent (h ! s) = Some p" for p
  proof -
    have "parent (h0 ! s) = Some p" using that effect_fields [OF e sl] by simp
    then have "0 < s" using wf_root [OF wf] by (cases s) auto
    from wf_parent [OF wf sl this] \<open>parent (h0 ! s) = Some p\<close> show ?thesis by auto
  qed
  have pl: "p \<noteq> s" if al0: "a \<in> set l" and pa0: "parent (h ! a) = Some p" for a p
  proof -
    have al: "a < length h0" using al0 bl by auto
    then have pa: "parent (h0 ! a) = Some p" using pa0 effect_fields [OF e al] by simp
    obtain i where i: "i < length l" "l ! i = a" using al0 by (auto simp: in_set_conv_nth)
    have "a \<noteq> 0" using pa wf_root [OF wf] by (cases a) auto
    then have "p \<in> set (take i l)" using pf i pa unfolding parents_first_def by auto
    then have "p \<in> set l" by (rule in_set_takeD)
    then show ?thesis using sn by auto
  qed
  have cs1: "consistent q (int N) h1 (l @ [s])"
    unfolding consistent_def
  proof
    fix a assume a: "a \<in> set (l @ [s])"
    show "\<exists>r. dists (h1 ! a) = Some r \<and> get_levenshtein_dists h1 a q (int N) = Inr r"
    proof (cases "a = s")
      case True
      have "get_levenshtein_dists h1 s q (int N) = get_levenshtein_dists h s q (int N)"
        by (rule get_dists_cong) (use same [of s] other ps in auto)
      moreover have "dists (h1 ! s) = Some r" using sl len by (simp add: h1_def)
      ultimately show ?thesis using g True by simp
    next
      case False
      then have al: "a \<in> set l" using a by simp
      then obtain r' where r': "dists (h ! a) = Some r'" "get_levenshtein_dists h a q (int N) = Inr r'"
        using cs unfolding consistent_def by blast
      have "get_levenshtein_dists h1 a q (int N) = get_levenshtein_dists h a q (int N)"
        by (rule get_dists_cong) (use same [of a] other pl [OF al] in auto)
      then show ?thesis using r' other [OF False] by simp
    qed
  qed
  have hs: "M1 \<union> (\<Union>k\<in>(set W - {s}) \<union> set pushed. hits N q h0 k) = R"
  proof -
    have "set pushed = (if opn then kids h0 s else {})" by (simp add: pushed_def kids_def)
    then show ?thesis using hits_step [OF wf sl s, where N = N and q = q and M = M] R unfolding M1_def opn_def by simp
  qed
  have "inv N q h0 R W' M1 h1 (l @ [s])" if W': "distinct W'" "set W' = (set W - {s}) \<union> set pushed" for W'
    unfolding inv_def
  proof (intro conjI)
    show "wf_heap h0" by (rule wf)
    show "effect N q h0 (set (l @ [s])) h1" by (rule e1)
    show "ready h0 (set (l @ [s])) (set W')" using ready_step [OF wf sl rd sub] W'(2) by simp
    show "distinct W'" by (rule W'(1))
    show "antichain h0 (set W')" using antichain_step [OF wf sl s a sub] W'(2) by simp
    show "distinct (l @ [s])" using dl sn by simp
    show "separate h0 (set (l @ [s])) (set W')" using separate_step(1) [OF wf sl s a sep sub] W'(2) by simp
    show "parents_first h0 (l @ [s])" by (rule pf1)
    show "set (l @ [s]) \<subseteq> {..<length h0}" using bl sl by simp
    show "consistent q (int N) h1 (l @ [s])" by (rule cs1)
    show "M1 \<union> (\<Union>k\<in>set W'. hits N q h0 k) = R" using hs W'(2) by simp
  qed
  then show ?thesis using v dp fresh sub unfolding h1_def by blast
qed

lemma inv_measure:
  assumes i: "inv N q h0 R W M h l" and s: "s \<in> set W" and P: "P \<subseteq> kids h0 s"
    and W': "set W' = (set W - {s}) \<union> P"
  shows "card (\<Union>k\<in>set W'. below h0 k) < card (\<Union>k\<in>set W. below h0 k)"
proof -
  have wf: "wf_heap h0" and rd: "ready h0 (set l) (set W)" and a: "antichain h0 (set W)"
    using i by (simp_all add: inv_def)
  have sl: "s < length h0" using rd s by (simp add: ready_def)
  show ?thesis unfolding W'
    by (rule psubset_card_mono [OF below_finite below_step [OF wf sl s a P]])
qed

lemma set_butlast_distinct:
  assumes "distinct W" "W \<noteq> []"
  shows "set (butlast W) = set W - {last W}"
proof -
  have W: "W = butlast W @ [last W]" using assms(2) by simp
  then have "distinct (butlast W @ [last W])" using assms(1) by simp
  then have "last W \<notin> set (butlast W)" by simp
  moreover have "set W = insert (last W) (set (butlast W))" by (subst W) simp
  ultimately show ?thesis by auto
qed

lemma loop_total:
  assumes "inv N q h0 R W M h l"
  shows "\<exists>h' l'. fuzzySearch_loop q (int N) {} W M h l = Some (Inr (R, h', l')) \<and> inv N q h0 R [] R h' l'"
  using assms
proof (induction "card (\<Union>k\<in>set W. below h0 k)" arbitrary: W M h l rule: less_induct)
  case less
  show ?case
  proof (cases "W = []")
    case True
    then have "M = R" using less.prems inv_final by simp
    then show ?thesis using True less.prems by (simp add: fuzzySearch_loop.simps)
  next
    case False
    define s where "s = last W"
    have s: "s \<in> set W" using False by (simp add: s_def)
    have dW: "distinct W" using less.prems by (simp add: inv_def)
    from inv_step [OF less.prems s] obtain M1 h1 pushed where
      v: "visit q (int N) s (M, h) = Inr (M1, h1, pushed)" and dp: "distinct pushed" and
      fresh: "set pushed \<inter> set W = {}" and sub: "set pushed \<subseteq> kids h0 s" and
      nx: "\<And>W'. distinct W' \<Longrightarrow> set W' = (set W - {s}) \<union> set pushed \<Longrightarrow> inv N q h0 R W' M1 h1 (l @ [s])"
      by blast
    define W' where "W' = butlast W @ pushed"
    have sb: "set (butlast W) = set W - {s}" unfolding s_def by (rule set_butlast_distinct [OF dW False])
    have dW': "distinct W'" using dW dp fresh sb by (auto simp: W'_def distinct_butlast)
    have sW': "set W' = (set W - {s}) \<union> set pushed" by (simp add: W'_def sb)
    have i': "inv N q h0 R W' M1 h1 (l @ [s])" by (rule nx [OF dW' sW'])
    have m: "card (\<Union>k\<in>set W'. below h0 k) < card (\<Union>k\<in>set W. below h0 k)"
      by (rule inv_measure [OF less.prems s sub sW'])
    from less.hyps [OF m i'] obtain h' l' where
      r: "fuzzySearch_loop q (int N) {} W' M1 h1 (l @ [s]) = Some (Inr (R, h', l'))" "inv N q h0 R [] R h' l'"
      by blast
    have "fuzzySearch_loop q (int N) {} W M h l = fuzzySearch_loop q (int N) {} W' M1 h1 (l @ [s])"
      using False v by (subst fuzzySearch_loop.simps) (simp add: s_def W'_def Let_def)
    then show ?thesis using r by simp
  qed
qed

lemma wf_distinct: "wf_heap h \<Longrightarrow> a < length h \<Longrightarrow> distinct (map fst (children (h ! a)))"
  unfolding wf_heap_def by blast

lemma wf_heapI:
  assumes "h \<noteq> []" "parent (h ! 0) = None" "word (h ! 0) = []"
    and "\<And>a. a < length h \<Longrightarrow> distinct (map fst (children (h ! a)))"
    and "\<And>a c b. a < length h \<Longrightarrow> (c, b) \<in> set (children (h ! a)) \<Longrightarrow>
           a < b \<and> b < length h \<and> parent (h ! b) = Some a \<and> word (h ! b) = word (h ! a) @ [c]"
    and "\<And>b. b < length h \<Longrightarrow> 0 < b \<Longrightarrow> \<exists>a<length h. \<exists>c. parent (h ! b) = Some a \<and> (c, b) \<in> set (children (h ! a))"
  shows "wf_heap h"
  unfolding wf_heap_def using assms by blast

lemma wf_parent_ex:
  "wf_heap h \<Longrightarrow> b < length h \<Longrightarrow> 0 < b \<Longrightarrow> \<exists>a<length h. \<exists>c. parent (h ! b) = Some a \<and> (c, b) \<in> set (children (h ! a))"
  unfolding wf_heap_def by blast

lemma wf_alloc:
  assumes wf: "wf_heap h" and nd: "nd < length h" and fresh: "map_of (children (h ! nd)) c = None"
  defines "h1 \<equiv> (h @ [Node (word (h ! nd) @ [c]) (Some nd)])[nd := (h ! nd)\<lparr>children := children (h ! nd) @ [(c, length h)]\<rparr>]"
  shows "wf_heap h1"
proof -
  let ?new = "Node (word (h ! nd) @ [c]) (Some nd)"
  let ?upd = "(h ! nd)\<lparr>children := children (h ! nd) @ [(c, length h)]\<rparr>"
  have len: "length h1 = Suc (length h)" by (simp add: h1_def)
  have n_nd: "h1 ! nd = ?upd" using nd by (simp add: h1_def)
  have n_old: "h1 ! a = h ! a" if "a < length h" "a \<noteq> nd" for a
    using that by (simp add: h1_def nth_append)
  have n_new: "h1 ! length h = ?new" using nd by (simp add: h1_def)
  have wp: "word (h1 ! a) = word (h ! a) \<and> parent (h1 ! a) = parent (h ! a)" if "a < length h" for a
    using that n_nd n_old [of a] by (cases "a = nd") simp_all
  have ch: "children (h1 ! a) = (if a = nd then children (h ! nd) @ [(c, length h)] else children (h ! a))"
    if "a < length h" for a
    using that n_nd n_old [of a] by (cases "a = nd") simp_all
  have r: "0 < length h" "parent (h ! 0) = None" "word (h ! 0) = []" using wf_root [OF wf] by simp_all
  show ?thesis
  proof (rule wf_heapI)
    show "h1 \<noteq> []" using len by (cases h1) simp_all
    show "parent (h1 ! 0) = None" using wp [OF r(1)] r(2) by simp
    show "word (h1 ! 0) = []" using wp [OF r(1)] r(3) by simp
  next
    fix a assume a: "a < length h1"
    show "distinct (map fst (children (h1 ! a)))"
    proof (cases "a < length h")
      case True
      have "c \<notin> fst ` set (children (h ! nd))" using fresh by (simp add: map_of_eq_None_iff)
      then show ?thesis using ch [OF True] wf_distinct [OF wf True] by auto
    next
      case False
      then have "a = length h" using a len by simp
      then show ?thesis using n_new by (simp add: Node_def)
    qed
  next
    fix a c' b assume a: "a < length h1" and cb: "(c', b) \<in> set (children (h1 ! a))"
    have al: "a < length h"
    proof (rule ccontr)
      assume "\<not> a < length h"
      then have "a = length h" using a len by simp
      then show False using cb n_new by (simp add: Node_def)
    qed
    show "a < b \<and> b < length h1 \<and> parent (h1 ! b) = Some a \<and> word (h1 ! b) = word (h1 ! a) @ [c']"
    proof (cases "a = nd \<and> (c', b) = (c, length h)")
      case True
      then show ?thesis using nd len n_new wp [OF nd] by (simp add: Node_def)
    next
      case False
      then have "(c', b) \<in> set (children (h ! a))" using cb ch [OF al] by (auto split: if_splits)
      from wf_child [OF wf al this] have w: "a < b" "b < length h" "parent (h ! b) = Some a"
        "word (h ! b) = word (h ! a) @ [c']" by simp_all
      show ?thesis using w len wp [OF w(2)] wp [OF al] by simp
    qed
  next
    fix b assume b: "b < length h1" "0 < b"
    show "\<exists>a<length h1. \<exists>c. parent (h1 ! b) = Some a \<and> (c, b) \<in> set (children (h1 ! a))"
    proof (cases "b < length h")
      case True
      from wf_parent [OF wf True b(2)] obtain a c' where
        ac: "a < b" "parent (h ! b) = Some a" "(c', b) \<in> set (children (h ! a))" by blast
      have al: "a < length h" using ac(1) True by simp
      have "(c', b) \<in> set (children (h1 ! a))" using ch [OF al] ac(3) by (cases "a = nd") simp_all
      then show ?thesis using wp [OF True] ac(2) al len by (intro exI [of _ a] conjI exI [of _ c']) simp_all
    next
      case False
      then have bl: "b = length h" using b len by simp
      have "(c, b) \<in> set (children (h1 ! nd))" using ch [OF nd] bl by simp
      moreover have "parent (h1 ! b) = Some nd" using bl n_new by (simp add: Node_def)
      ultimately show ?thesis using nd len by (intro exI [of _ nd] conjI exI [of _ c]) simp_all
    qed
  qed
qed

lemma setdefault_ok:
  assumes wf: "wf_heap h" and nd: "nd < length h"
    and sd: "setdefault h nd c (word (h ! nd) @ [c]) = (h', b)"
  shows "wf_heap h' \<and> b < length h' \<and> word (h' ! b) = word (h ! nd) @ [c] \<and> length h \<le> length h' \<and>
     (\<forall>a<length h. word (h' ! a) = word (h ! a) \<and> is_word (h' ! a) = is_word (h ! a)) \<and>
     (\<forall>a. length h \<le> a \<and> a < length h' \<longrightarrow> \<not> is_word (h' ! a))"
proof (cases "map_of (children (h ! nd)) c")
  case (Some k)
  then have eq: "h' = h" "b = k" using sd by (simp_all add: setdefault_def)
  have "(c, k) \<in> set (children (h ! nd))" using Some by (rule map_of_SomeD)
  from wf_child [OF wf nd this] show ?thesis using wf eq by auto
next
  case None
  let ?new = "Node (word (h ! nd) @ [c]) (Some nd)"
  let ?upd = "(h ! nd)\<lparr>children := children (h ! nd) @ [(c, length h)]\<rparr>"
  have eq: "h' = (h @ [?new])[nd := ?upd]" "b = length h"
    using sd None by (auto simp add: setdefault_def Let_def)
  have wf': "wf_heap h'" unfolding eq by (rule wf_alloc [OF wf nd None])
  have n_nd: "h' ! nd = ?upd" using nd by (simp add: eq)
  have n_old: "h' ! a = h ! a" if "a < length h" "a \<noteq> nd" for a
    using that by (simp add: eq nth_append)
  have n_new: "h' ! length h = ?new" using nd by (simp add: eq)
  have old: "word (h' ! a) = word (h ! a) \<and> is_word (h' ! a) = is_word (h ! a)" if "a < length h" for a
    using that n_nd n_old [of a] by (cases "a = nd") simp_all
  have len: "length h' = Suc (length h)" by (simp add: eq)
  have new: "\<not> is_word (h' ! a)" if "length h \<le> a \<and> a < length h'" for a
  proof -
    have "a = length h" using that len by simp
    then show ?thesis using n_new by (simp add: Node_def)
  qed
  show ?thesis using wf' eq(2) len n_new old new by (simp add: Node_def)
qed

lemma insert_loop_ok:
  assumes "wf_heap h" "nd < length h" "word (h ! nd) = take i w" "cs = drop i w"
    and "insert_loop w i cs (h, nd) = (h', nd')"
  shows "wf_heap h' \<and> nd' < length h' \<and> word (h' ! nd') = w \<and> length h \<le> length h' \<and>
     (\<forall>a<length h. word (h' ! a) = word (h ! a) \<and> is_word (h' ! a) = is_word (h ! a)) \<and>
     (\<forall>a. length h \<le> a \<and> a < length h' \<longrightarrow> \<not> is_word (h' ! a))"
  using assms
proof (induction cs arbitrary: i h nd)
  case Nil
  then have "length w \<le> i" by simp
  then show ?case using Nil by auto
next
  case (Cons c cs)
  have il: "i < length w" using Cons.prems(4) by (metis drop_eq_Nil list.distinct(1) not_le)
  have c: "c = w ! i" and cs: "cs = drop (i + 1) w"
    using Cons.prems(4) il by (simp_all add: Cons_nth_drop_Suc [symmetric])
  have tk: "take (i + 1) w = word (h ! nd) @ [c]"
    using il c Cons.prems(3) by (simp add: take_Suc_conv_app_nth)
  obtain h1 b where sd: "setdefault h nd c (word (h ! nd) @ [c]) = (h1, b)" by (cases "setdefault h nd c (word (h ! nd) @ [c])")
  note s = setdefault_ok [OF Cons.prems(1,2) sd]
  have lp: "insert_loop w (i + 1) cs (h1, b) = (h', nd')"
    using Cons.prems(5) sd tk by simp
  have wb: "word (h1 ! b) = take (i + 1) w" using s tk by simp
  from Cons.IH [OF _ _ wb cs lp] s
  have r: "wf_heap h'" "nd' < length h'" "word (h' ! nd') = w" "length h1 \<le> length h'"
    "\<forall>a<length h1. word (h' ! a) = word (h1 ! a) \<and> is_word (h' ! a) = is_word (h1 ! a)"
    "\<forall>a. length h1 \<le> a \<and> a < length h' \<longrightarrow> \<not> is_word (h' ! a)" by simp_all
  have s1: "length h \<le> length h1" 
    "\<forall>a<length h. word (h1 ! a) = word (h ! a) \<and> is_word (h1 ! a) = is_word (h ! a)"
    "\<forall>a. length h \<le> a \<and> a < length h1 \<longrightarrow> \<not> is_word (h1 ! a)" using s by simp_all
  have old: "\<forall>a<length h. word (h' ! a) = word (h ! a) \<and> is_word (h' ! a) = is_word (h ! a)"
  proof (intro allI impI)
    fix a assume a: "a < length h"
    then have "a < length h1" using s1(1) by simp
    then show "word (h' ! a) = word (h ! a) \<and> is_word (h' ! a) = is_word (h ! a)"
      using r(5) s1(2) a by simp
  qed
  have new: "\<forall>a. length h \<le> a \<and> a < length h' \<longrightarrow> \<not> is_word (h' ! a)"
  proof (intro allI impI)
    fix a assume a: "length h \<le> a \<and> a < length h'"
    show "\<not> is_word (h' ! a)"
    proof (cases "a < length h1")
      case True
      then show ?thesis using r(5) s1(3) a by simp
    next
      case False
      then show ?thesis using r(6) a by simp
    qed
  qed
  show ?case using r(1,2,3,4) s1(1) old new by simp
qed

lemma wf_cong:
  assumes wf: "wf_heap h0" and len: "length h = length h0"
    and f: "\<And>a. a < length h0 \<Longrightarrow> word (h ! a) = word (h0 ! a) \<and> parent (h ! a) = parent (h0 ! a) \<and>
     children (h ! a) = children (h0 ! a)"
  shows "wf_heap h"
proof (rule wf_heapI)
  have r: "0 < length h0" "parent (h0 ! 0) = None" "word (h0 ! 0) = []" using wf_root [OF wf] by simp_all
  show "h \<noteq> []" using r(1) len by (cases h) simp_all
  show "parent (h ! 0) = None" "word (h ! 0) = []" using f [OF r(1)] r(2,3) by simp_all
next
  fix a assume "a < length h"
  then have a0: "a < length h0" using len by simp
  show "distinct (map fst (children (h ! a)))" using wf_distinct [OF wf a0] f [OF a0] by simp
next
  fix a c b assume a: "a < length h" and cb: "(c, b) \<in> set (children (h ! a))"
  then have cb0: "(c, b) \<in> set (children (h0 ! a))" and a0: "a < length h0" using f [of a] len by simp_all
  from wf_child [OF wf a0 cb0] have w: "a < b" "b < length h0" "parent (h0 ! b) = Some a"
    "word (h0 ! b) = word (h0 ! a) @ [c]" by simp_all
  show "a < b \<and> b < length h \<and> parent (h ! b) = Some a \<and> word (h ! b) = word (h ! a) @ [c]"
    using w f [OF w(2)] f [OF a0] len by simp
next
  fix b assume b: "b < length h" "0 < b"
  then have b0: "b < length h0" using len by simp
  from wf_parent [OF wf b0 b(2)] obtain a c where
    ac: "a < b" "parent (h0 ! b) = Some a" "(c, b) \<in> set (children (h0 ! a))" by blast
  have a0: "a < length h0" using ac(1) b0 by simp
  show "\<exists>a<length h. \<exists>c. parent (h ! b) = Some a \<and> (c, b) \<in> set (children (h ! a))"
    using ac f [OF a0] f [OF b0] a0 len by (intro exI [of _ a] conjI exI [of _ c]) simp_all
qed

lemma terminal_words_twords: "terminal_words t = twords (heap t)"
  unfolding terminal_words_def twords_def
proof (intro equalityI subsetI)
  fix x assume "x \<in> {word nd |nd. nd \<in> set (heap t) \<and> is_word nd}"
  then obtain nd where nd: "x = word nd" "nd \<in> set (heap t)" "is_word nd" by blast
  then obtain a where "a < length (heap t)" "heap t ! a = nd" by (auto simp: in_set_conv_nth)
  then show "x \<in> {word (heap t ! a) |a. a < length (heap t) \<and> is_word (heap t ! a)}" using nd by blast
next
  fix x assume "x \<in> {word (heap t ! a) |a. a < length (heap t) \<and> is_word (heap t ! a)}"
  then obtain a where a: "x = word (heap t ! a)" "a < length (heap t)" "is_word (heap t ! a)" by blast
  then have "heap t ! a \<in> set (heap t)" by simp
  then show "x \<in> {word nd |nd. nd \<in> set (heap t) \<and> is_word nd}" using a by blast
qed

lemma twords_cong:
  assumes "length h = length h0"
    and "\<And>a. a < length h0 \<Longrightarrow> word (h ! a) = word (h0 ! a) \<and> is_word (h ! a) = is_word (h0 ! a)"
  shows "twords h = twords h0"
proof -
  have "(\<exists>a. x = word (h ! a) \<and> a < length h \<and> is_word (h ! a)) \<longleftrightarrow>
        (\<exists>a. x = word (h0 ! a) \<and> a < length h0 \<and> is_word (h0 ! a))" for x
    using assms by metis
  then show ?thesis unfolding twords_def by simp
qed

lemma Trie_init_ok: "wf_trie Trie_init \<and> terminal_words Trie_init = {}"
  by (simp add: wf_trie_def Trie_init_def wf_heap_def Node_def terminal_words_def)

lemma Trie_insert_ok:
  assumes wt: "wf_trie t"
  shows "wf_trie (Trie_insert t w0) \<and> terminal_words (Trie_insert t w0) = insert (preprocess w0) (terminal_words t)"
proof -
  define w where "w = preprocess w0"
  let ?h = "heap t"
  have wf: "wf_heap ?h" and rt: "root t = 0" using wt by (simp_all add: wf_trie_def)
  obtain h' nd' where lp: "insert_loop w 0 w (?h, 0) = (h', nd')" by (cases "insert_loop w 0 w (?h, 0)")
  have r0: "0 < length ?h" "word (?h ! 0) = take 0 w" using wf_root [OF wf] by simp_all
  from insert_loop_ok [OF wf r0 _ lp]
  have r: "wf_heap h'" "nd' < length h'" "word (h' ! nd') = w" "length ?h \<le> length h'"
    "\<forall>a<length ?h. word (h' ! a) = word (?h ! a) \<and> is_word (h' ! a) = is_word (?h ! a)"
    "\<forall>a. length ?h \<le> a \<and> a < length h' \<longrightarrow> \<not> is_word (h' ! a)" by simp_all
  define h2 where "h2 = h'[nd' := (h' ! nd')\<lparr>is_word := True\<rparr>]"
  have eq: "Trie_insert t w0 = t\<lparr>heap := h2\<rparr>"
    using lp rt by (simp add: Trie_insert_def w_def [symmetric] h2_def)
  have len2: "length h2 = length h'" by (simp add: h2_def)
  have f2: "word (h2 ! a) = word (h' ! a) \<and> parent (h2 ! a) = parent (h' ! a) \<and> children (h2 ! a) = children (h' ! a)"
    if "a < length h'" for a
    using that by (cases "a = nd'") (simp_all add: h2_def)
  have iw: "is_word (h2 ! a) \<longleftrightarrow> a = nd' \<or> is_word (h' ! a)" if "a < length h'" for a
    using that by (cases "a = nd'") (simp_all add: h2_def)
  have wf2: "wf_heap h2" by (rule wf_cong [OF r(1) len2 f2])
  have "twords h2 = insert w (twords ?h)"
  proof (intro equalityI subsetI)
    fix x assume "x \<in> twords h2"
    then obtain a where a: "x = word (h2 ! a)" "a < length h'" "is_word (h2 ! a)"
      using len2 by (auto simp: twords_def)
    show "x \<in> insert w (twords ?h)"
    proof (cases "a = nd'")
      case True
      then show ?thesis using a f2 [OF a(2)] r(3) by simp
    next
      case False
      then have i: "is_word (h' ! a)" using iw [OF a(2)] a(3) by simp
      then have al: "a < length ?h" using r(6) a(2) by (meson not_le)
      then have "is_word (?h ! a)" "word (?h ! a) = x" using r(5) i a(1) f2 [OF a(2)] by simp_all
      then show ?thesis using al by (auto simp: twords_def)
    qed
  next
    fix x assume x: "x \<in> insert w (twords ?h)"
    show "x \<in> twords h2"
    proof (cases "x = w")
      case True
      have "word (h2 ! nd') = w" "is_word (h2 ! nd')" using f2 [OF r(2)] r(3) iw [OF r(2)] by simp_all
      then show ?thesis using True r(2) len2 unfolding twords_def by force
    next
      case False
      then obtain a where a: "x = word (?h ! a)" "a < length ?h" "is_word (?h ! a)"
        using x by (auto simp: twords_def)
      then have a': "a < length h'" using r(4) by simp
      have "word (h2 ! a) = x" "is_word (h2 ! a)" using f2 [OF a'] iw [OF a'] r(5) a by simp_all
      then show ?thesis using a' len2 unfolding twords_def by force
    qed
  qed
  then show ?thesis using wf2 rt eq by (simp add: wf_trie_def terminal_words_twords w_def)
qed

lemma min_list_nonneg:
  assumes "xs \<noteq> []" "\<forall>x\<in>set xs. (0::int) \<le> x"
  shows "0 \<le> min_list xs"
proof -
  have "min_list xs \<in> set xs" using assms(1) by (simp add: min_list_Min)
  then show ?thesis using assms(2) by simp
qed

lemma visit_negative:
  assumes "parent (h ! 0) = None" "h \<noteq> []" "n < 0"
  shows "visit q n 0 (M, h) = Inr (M, h[0 := (h ! 0)\<lparr>dists := Some (map int [0..<length q + 1])\<rparr>], [])"
proof -
  let ?ds = "map int [0..<length q + 1]"
  have g: "get_levenshtein_dists h 0 q n = Inr ?ds" using assms(1) by (simp add: get_levenshtein_dists_def)
  have "0 \<le> min_list ?ds" by (rule min_list_nonneg) auto
  then have m: "\<not> min_list ?ds \<le> n" using assms(3) by simp
  have "last ?ds = int (length q)" by simp
  then have l: "\<not> last ?ds \<le> n" using assms(3) by simp
  show ?thesis using g m l by (simp add: visit_def Let_def del: upt_Suc)
qed

lemma loop_negative:
  assumes "parent (h ! 0) = None" "h \<noteq> []" "n < 0"
  shows "fuzzySearch_loop q n {} [0] {} h [] =
     Some (Inr ({}, h[0 := (h ! 0)\<lparr>dists := Some (map int [0..<length q + 1])\<rparr>], [0]))"
  by (subst fuzzySearch_loop.simps, simp add: visit_negative [OF assms] del: upt_Suc)
     (subst fuzzySearch_loop.simps, simp)

lemma search_nonneg:
  assumes wf: "wf_trie t"
  shows "\<exists>h' l. fuzzySearch_run t query (int N) = Some (Inr (hits N (preprocess query) (heap t) 0, h', l))
      \<and> inv N (preprocess query) (heap t) (hits N (preprocess query) (heap t) 0) [] (hits N (preprocess query) (heap t) 0) h' l"
proof -
  have w: "wf_heap (heap t)" and r: "root t = 0" using wf by (simp_all add: wf_trie_def)
  show ?thesis unfolding fuzzySearch_run_def r by (rule loop_total [OF inv_init [OF w]])
qed

lemma hits_terminal:
  assumes "wf_trie t"
  shows "hits N q (heap t) 0 = {w \<in> terminal_words t. levenshtein w q \<le> N}"
proof -
  have w: "wf_heap (heap t)" using assms by (simp add: wf_trie_def)
  show ?thesis unfolding hits_root [OF w] terminal_words_twords twords_def by auto
qed

lemma search_preserves:
  assumes wf: "wf_trie t" and s: "Trie_fuzzySearch t query n = Some (Inr (M, t'))"
  shows "wf_trie t' \<and> terminal_words t' = terminal_words t"
proof -
  have w: "wf_heap (heap t)" and r: "root t = 0" using wf by (simp_all add: wf_trie_def)
  obtain h' l where run: "fuzzySearch_run t query n = Some (Inr (M, h', l))" and t': "t' = t\<lparr>heap := h'\<rparr>"
    using s by (auto simp: Trie_fuzzySearch_def split: option.splits sum.splits)
  have "length h' = length (heap t) \<and> (\<forall>a<length (heap t). word (h' ! a) = word (heap t ! a) \<and>
      parent (h' ! a) = parent (heap t ! a) \<and> children (h' ! a) = children (heap t ! a) \<and>
      is_word (h' ! a) = is_word (heap t ! a))"
  proof (cases "n < 0")
    case True
    have ne: "heap t \<noteq> []" and p: "parent (heap t ! 0) = None" using wf_root [OF w] by auto
    have "h' = (heap t)[0 := (heap t ! 0)\<lparr>dists := Some (map int [0..<length (preprocess query) + 1])\<rparr>]"
      using run loop_negative [OF p ne True, of "preprocess query"] unfolding fuzzySearch_run_def r by simp
    then have h': "h' = (heap t)[0 := (heap t ! 0)\<lparr>dists := Some (map int [0..<length (preprocess query) + 1])\<rparr>]" .
    have "word (h' ! a) = word (heap t ! a) \<and> parent (h' ! a) = parent (heap t ! a) \<and>
       children (h' ! a) = children (heap t ! a) \<and> is_word (h' ! a) = is_word (heap t ! a)"
      if "a < length (heap t)" for a
      using that unfolding h' by (cases "a = 0") simp_all
    moreover have "length h' = length (heap t)" unfolding h' by simp
    ultimately show ?thesis by blast
  next
    case False
    then obtain N where N: "n = int N" using nonneg_int_cases [of n] by auto
    from search_nonneg [OF wf, of query N] run N obtain R where
      "inv N (preprocess query) (heap t) R [] R h' l" by auto
    then have "effect N (preprocess query) (heap t) (set l) h'" by (simp add: inv_def)
    then show ?thesis by (simp add: effect_def)
  qed
  then have len: "length h' = length (heap t)" and f: "\<And>a. a < length (heap t) \<Longrightarrow> word (h' ! a) = word (heap t ! a) \<and>
      parent (h' ! a) = parent (heap t ! a) \<and> children (h' ! a) = children (heap t ! a) \<and>
      is_word (h' ! a) = is_word (heap t ! a)" by simp_all
  have "wf_heap h'" by (rule wf_cong [OF w len]) (use f in simp)
  moreover have "twords h' = twords (heap t)" by (rule twords_cong [OF len]) (use f in simp)
  ultimately show ?thesis using r t' by (simp add: wf_trie_def terminal_words_twords)
qed

lemma built_wf: "built W t \<Longrightarrow> wf_trie t \<and> terminal_words t = W"
proof (induction rule: built.induct)
  case init
  show ?case by (rule Trie_init_ok)
next
  case (ins W t w)
  then show ?case using Trie_insert_ok [of t w] by simp
next
  case (search W t query n M t')
  then show ?case using search_preserves [of t query n M t'] by simp
qed

section \<open>The claims about the trie\<close>

lemma search_result:
  assumes wf: "wf_trie t"
  shows "\<exists>t'. Trie_fuzzySearch t query (int N) =
     Some (Inr ({w \<in> terminal_words t. levenshtein w (preprocess query) \<le> N}, t'))"
proof -
  from search_nonneg [OF wf, of query N] obtain h' l where
    "fuzzySearch_run t query (int N) = Some (Inr (hits N (preprocess query) (heap t) 0, h', l))" by blast
  then show ?thesis by (simp add: Trie_fuzzySearch_def hits_terminal [OF wf])
qed

lemma preprocess_a: "preprocess ''a'' = ''a''" by code_simp

lemma preprocess_b: "preprocess ''b'' = ''b''" by code_simp

lemma preprocess_ab: "preprocess ''ab'' = ''ab''" by code_simp

lemma preprocess_empty: "preprocess [] = []" by code_simp

text \<open>
  C1. A trie \<open>t\<close> built by any sequence of calls, with \<open>W\<close> the set of the normalised
  words inserted: the terminal words of \<open>t\<close> are \<open>W\<close>, and for every query and every
  bound \<open>n \<ge> 0\<close> \<^verbatim>\<open>fuzzySearch\<close> returns, without raising, exactly the words of
  \<open>W\<close> whose Levenshtein distance to the normalised query is at most \<open>n\<close>: the
  brute-force filter over the terminal words.
\<close>

theorem fuzzySearch_brute_force:
  assumes "built W t"
  shows "terminal_words t = W \<and>
     (\<exists>t'. Trie_fuzzySearch t query (int n) =
        Some (Inr ({w \<in> W. levenshtein w (preprocess query) \<le> n}, t')))"
  using built_wf [OF assms] search_result [of t query n] by auto

theorem fuzzySearch_brute_force_witness:
  "terminal_words (Trie_insert (Trie_insert Trie_init ''ab'') ''b'') = {''b'', ''ab''} \<and>
   (\<exists>t'. Trie_fuzzySearch (Trie_insert (Trie_insert Trie_init ''ab'') ''b'') ''a'' 1 =
      Some (Inr ({''b'', ''ab''}, t')))"
proof -
  have b: "built {''b'', ''ab''} (Trie_insert (Trie_insert Trie_init ''ab'') ''b'')"
    using built.ins [OF built.ins [OF built.init, of "''ab''"], of "''b''"]
    by (simp add: preprocess_ab preprocess_b)
  have s: "{w \<in> {''b'', ''ab''}. levenshtein w ''a'' \<le> 1} = {''b'', ''ab''}" by auto
  show ?thesis
    using fuzzySearch_brute_force [OF b, of "''a''" 1] unfolding preprocess_a s by simp
qed

text \<open>
  C3. For a fixed query the result with bound \<open>n\<close> is a subset of the result with
  bound \<open>n + 1\<close>, whether the second search runs on the trie as it was or on the trie
  as the first search left it.
\<close>

theorem fuzzySearch_monotone:
  assumes "built W t"
  shows "\<exists>M t1 M' t2 t3.
     Trie_fuzzySearch t query (int n) = Some (Inr (M, t1)) \<and>
     Trie_fuzzySearch t query (int n + 1) = Some (Inr (M', t2)) \<and>
     Trie_fuzzySearch t1 query (int n + 1) = Some (Inr (M', t3)) \<and> M \<subseteq> M'"
proof -
  have wf: "wf_trie t" using built_wf [OF assms] by simp
  from search_result [OF wf, of query n] obtain t1 where
    a: "Trie_fuzzySearch t query (int n) = Some (Inr ({w \<in> terminal_words t. levenshtein w (preprocess query) \<le> n}, t1))"
    by blast
  from search_result [OF wf, of query "Suc n"] obtain t2 where
    b: "Trie_fuzzySearch t query (int n + 1) = Some (Inr ({w \<in> terminal_words t. levenshtein w (preprocess query) \<le> Suc n}, t2))"
    by (auto simp: add.commute)
  have w1: "wf_trie t1" "terminal_words t1 = terminal_words t" using search_preserves [OF wf a] by simp_all
  from search_result [OF w1(1), of query "Suc n"] obtain t3 where
    c: "Trie_fuzzySearch t1 query (int n + 1) = Some (Inr ({w \<in> terminal_words t. levenshtein w (preprocess query) \<le> Suc n}, t3))"
    unfolding w1(2) by (auto simp: add.commute)
  have "{w \<in> terminal_words t. levenshtein w (preprocess query) \<le> n} \<subseteq> {w \<in> terminal_words t. levenshtein w (preprocess query) \<le> Suc n}"
    by auto
  then show ?thesis using a b c by blast
qed

theorem fuzzySearch_monotone_witness:
  "\<exists>M t1 M' t2 t3.
     Trie_fuzzySearch (Trie_insert Trie_init ''ab'') ''a'' 0 = Some (Inr (M, t1)) \<and>
     Trie_fuzzySearch (Trie_insert Trie_init ''ab'') ''a'' 1 = Some (Inr (M', t2)) \<and>
     Trie_fuzzySearch t1 ''a'' 1 = Some (Inr (M', t3)) \<and> M \<subseteq> M'"
  using fuzzySearch_monotone [OF built.ins [OF built.init, of "''ab''"], of "''a''" 0] by simp

text \<open>
  C4. With bound 0 the search is the exact lookup: it returns the singleton of the
  normalised word when the trie contains it, and the empty set when it does not.
\<close>

theorem fuzzySearch_exact:
  assumes "built W t"
  shows "\<exists>t'. Trie_fuzzySearch t w 0 =
     Some (Inr (if preprocess w \<in> W then {preprocess w} else {}, t'))"
proof -
  have wf: "wf_trie t" and tw: "terminal_words t = W" using built_wf [OF assms] by simp_all
  have "{x \<in> W. levenshtein x (preprocess w) \<le> 0} = (if preprocess w \<in> W then {preprocess w} else {})"
    by (auto simp: levenshtein_eq_0)
  then show ?thesis using search_result [OF wf, of w 0] tw by simp
qed

theorem fuzzySearch_exact_witness:
  "(\<exists>t'. Trie_fuzzySearch (Trie_insert Trie_init ''ab'') ''ab'' 0 = Some (Inr ({''ab''}, t'))) \<and>
   (\<exists>t'. Trie_fuzzySearch (Trie_insert Trie_init ''ab'') ''a'' 0 = Some (Inr ({}, t')))"
  using fuzzySearch_exact [OF built.ins [OF built.init, of "''ab''"], of "''ab''"]
        fuzzySearch_exact [OF built.ins [OF built.init, of "''ab''"], of "''a''"]
  by (simp add: preprocess_a preprocess_ab)

text \<open>
  C8. A query that normalises to the empty string returns exactly the inserted words
  of length at most \<open>n\<close>.
\<close>

theorem fuzzySearch_empty_query:
  assumes "built W t" and "preprocess query = []"
  shows "\<exists>t'. Trie_fuzzySearch t query (int n) = Some (Inr ({w \<in> W. length w \<le> n}, t'))"
proof -
  have wf: "wf_trie t" and tw: "terminal_words t = W" using built_wf [OF assms(1)] by simp_all
  show ?thesis using search_result [OF wf, of query n] tw assms(2) by simp
qed

theorem fuzzySearch_empty_query_witness:
  "preprocess ''?!'' = [] \<and>
   (\<exists>t'. Trie_fuzzySearch (Trie_insert (Trie_insert Trie_init ''ab'') ''b'') ''?!'' 1 =
      Some (Inr ({''b''}, t')))"
proof -
  have p: "preprocess ''?!'' = []" by code_simp
  have b: "built {''b'', ''ab''} (Trie_insert (Trie_insert Trie_init ''ab'') ''b'')"
    using built.ins [OF built.ins [OF built.init, of "''ab''"], of "''b''"]
    by (simp add: preprocess_ab preprocess_b)
  have s: "{w \<in> {''b'', ''ab''}. length w \<le> 1} = {''b''}" by auto
  show ?thesis
    using fuzzySearch_empty_query [OF b p, of 1] p unfolding s by simp
qed

text \<open>
  C7, as stated, fails: with the bound \<open>-1\<close> the search of the trie of the word \<open>a\<close>
  raises nothing and returns the empty set.
\<close>

theorem fuzzySearch_negative_no_error:
  "map_option (map_sum id fst) (Trie_fuzzySearch (Trie_insert Trie_init ''a'') ''a'' (- 1)) = Some (Inr {})"
  by code_simp

text \<open>
  C7, amended. With a negative bound the search raises nothing and returns the empty
  set: the root's row is computed, its least entry 0 exceeds the bound, and no child
  is pushed.
\<close>

theorem fuzzySearch_negative:
  assumes "built W t" and "n < 0"
  shows "\<exists>t'. Trie_fuzzySearch t query n = Some (Inr ({}, t'))"
proof -
  have wf: "wf_heap (heap t)" and r: "root t = 0" using built_wf [OF assms(1)] by (simp_all add: wf_trie_def)
  have ne: "heap t \<noteq> []" and p: "parent (heap t ! 0) = None" using wf_root [OF wf] by auto
  show ?thesis
    using loop_negative [OF p ne assms(2), of "preprocess query"]
    by (simp add: Trie_fuzzySearch_def fuzzySearch_run_def r)
qed

theorem fuzzySearch_negative_witness:
  "(- 1 :: int) < 0 \<and> (\<exists>t'. Trie_fuzzySearch (Trie_insert Trie_init ''a'') ''a'' (- 1) = Some (Inr ({}, t')))"
  using fuzzySearch_negative [OF built.ins [OF built.init, of "''a''"], of "- 1" "''a''"] by simp

text \<open>
  C6. In one search with a bound \<open>n \<ge> 0\<close> the rows are computed for pairwise
  distinct nodes, the parent of every node whose row is computed had its row computed
  earlier in the same search, and no read of a parent's row raises. At the end the
  row stored on every visited node is the row that \<^verbatim>\<open>get_levenshtein_dists\<close>
  computes from the row stored on its parent: no row was computed from a row left by
  an earlier search, and no row was replaced after a child had read it. The list \<open>l\<close>
  is the history of the nodes whose row was computed, in order.
\<close>

theorem fuzzySearch_rows_once:
  assumes "built W t"
  shows "\<exists>M h' l. fuzzySearch_run t query (int n) = Some (Inr (M, h', l)) \<and> distinct l \<and>
     (\<forall>i<length l. \<forall>p. parent (heap t ! (l ! i)) = Some p \<longrightarrow> p \<in> set (take i l)) \<and>
     (\<forall>a\<in>set l. \<exists>r. dists (h' ! a) = Some r \<and>
        get_levenshtein_dists h' a (preprocess query) (int n) = Inr r)"
proof -
  let ?q = "preprocess query" and ?h = "heap t"
  have wt: "wf_trie t" using built_wf [OF assms] by simp
  then have wf: "wf_heap ?h" by (simp add: wf_trie_def)
  from search_nonneg [OF wt, of query n] obtain h' l where
    run: "fuzzySearch_run t query (int n) = Some (Inr (hits n ?q ?h 0, h', l))" and
    i: "inv n ?q ?h (hits n ?q ?h 0) [] (hits n ?q ?h 0) h' l" by blast
  have d: "distinct l" and pf: "parents_first ?h l" and e: "effect n ?q ?h (set l) h'"
    using i by (simp_all add: inv_def)
  have p0: "parent (?h ! 0) = None" using wf_root [OF wf] by simp
  have a: "\<forall>i<length l. \<forall>p. parent (?h ! (l ! i)) = Some p \<longrightarrow> p \<in> set (take i l)"
  proof (intro allI impI)
    fix i p assume "i < length l" "parent (?h ! (l ! i)) = Some p"
    then show "p \<in> set (take i l)" using pf p0 unfolding parents_first_def by (metis option.distinct(1) option.inject)
  qed
  have b: "\<forall>a\<in>set l. \<exists>r. dists (h' ! a) = Some r \<and> get_levenshtein_dists h' a ?q (int n) = Inr r"
    using i by (simp add: inv_def consistent_def)
  show ?thesis using run d a b by blast
qed

theorem fuzzySearch_rows_once_witness:
  "\<exists>M h' l. fuzzySearch_run (Trie_insert Trie_init ''ab'') ''a'' 1 = Some (Inr (M, h', l)) \<and> distinct l \<and>
     (\<forall>i<length l. \<forall>p. parent (heap (Trie_insert Trie_init ''ab'') ! (l ! i)) = Some p \<longrightarrow> p \<in> set (take i l)) \<and>
     (\<forall>a\<in>set l. \<exists>r. dists (h' ! a) = Some r \<and>
        get_levenshtein_dists h' a (preprocess ''a'') (int 1) = Inr r)"
  using fuzzySearch_rows_once [OF built.ins [OF built.init, of "''ab''"], of "''a''" 1] by simp

section \<open>Traversal strategies\<close>

lemma traverse_step_inv:
  assumes st: "traverse_step q (int N) (W, M, h) (W', M', h')" and i: "inv N q h0 R W M h l"
  shows "\<exists>l'. inv N q h0 R W' M' h' l'"
  using st
proof (cases rule: traverse_step.cases)
  case (visit s pushed)
  from inv_step [OF i visit(1)] obtain M1 h1 pushed1 where
    v: "visit q (int N) s (M, h) = Inr (M1, h1, pushed1)" and dp: "distinct pushed1" and
    fresh: "set pushed1 \<inter> set W = {}" and
    nx: "\<And>W'. distinct W' \<Longrightarrow> set W' = (set W - {s}) \<union> set pushed1 \<Longrightarrow> inv N q h0 R W' M1 h1 (l @ [s])"
    by blast
  have eq: "M' = M1" "h' = h1" "pushed = pushed1" using v visit(2) by simp_all
  have dW: "distinct W" using i by (simp add: inv_def)
  have m: "mset W' = mset (remove1 s W @ pushed1)" using visit(3) eq by simp
  have "distinct (remove1 s W @ pushed1)" using dW dp fresh by (auto dest: notin_set_remove1)
  then have dW': "distinct W'" using m by (metis mset_eq_imp_distinct_iff)
  have "set W' = set (remove1 s W @ pushed1)" using m by (rule mset_eq_setD)
  then have sW': "set W' = (set W - {s}) \<union> set pushed1" using dW by simp
  show ?thesis using nx [OF dW' sW'] eq by blast
qed

lemma traverse_steps_inv:
  assumes "(traverse_step q (int N))\<^sup>*\<^sup>* x y" and "\<exists>l. inv N q h0 R (fst x) (fst (snd x)) (snd (snd x)) l"
  shows "\<exists>l. inv N q h0 R (fst y) (fst (snd y)) (snd (snd y)) l"
  using assms
proof (induction rule: rtranclp_induct)
  case base
  then show ?case .
next
  case (step y z)
  then obtain l where l: "inv N q h0 R (fst y) (fst (snd y)) (snd (snd y)) l" by blast
  have "traverse_step q (int N) (fst y, fst (snd y), snd (snd y)) (fst z, fst (snd z), snd (snd z))"
    using step.hyps(2) by simp
  from traverse_step_inv [OF this l] show ?case .
qed

text \<open>
  C5. Every run of every traversal strategy that empties the work list ends with the
  set that \<^verbatim>\<open>fuzzySearch\<close> returns: the result does not depend on the order in which
  the children are visited, nor on the work list being a stack or a queue.
\<close>

theorem traversal_order_independent:
  assumes "built Wd t"
    and "(traverse_step (preprocess query) (int n))\<^sup>*\<^sup>* ([root t], {}, heap t) ([], M, h')"
  shows "\<exists>t'. Trie_fuzzySearch t query (int n) = Some (Inr (M, t'))"
proof -
  let ?q = "preprocess query" and ?h = "heap t"
  have wt: "wf_trie t" using built_wf [OF assms(1)] by simp
  then have wf: "wf_heap ?h" and r: "root t = 0" by (simp_all add: wf_trie_def)
  have "\<exists>l. inv n ?q ?h (hits n ?q ?h 0) (fst ([root t], {}, ?h)) (fst (snd ([root t], {}, ?h))) (snd (snd ([root t], {}, ?h))) l"
    using inv_init [OF wf, of n ?q] r by auto
  from traverse_steps_inv [OF assms(2) this] obtain l where
    "inv n ?q ?h (hits n ?q ?h 0) [] M h' l" by auto
  then have "M = hits n ?q ?h 0" by (rule inv_final)
  then show ?thesis using search_result [OF wt, of query n] hits_terminal [OF wt, of n ?q] by simp
qed

lemma heap_a_b:
  "Trie_insert (Trie_insert Trie_init ''a'') ''b'' =
     \<lparr>root = 0, heap =
       [\<lparr>word = [], parent = None, children = [(CHR ''a'', 1), (CHR ''b'', 2)], dists = None, is_word = False\<rparr>,
        \<lparr>word = ''a'', parent = Some 0, children = [], dists = None, is_word = True\<rparr>,
        \<lparr>word = ''b'', parent = Some 0, children = [], dists = None, is_word = True\<rparr>]\<rparr>"
  by code_simp

lemma queue_run_a_b:
  "(traverse_step ''a'' 1)\<^sup>*\<^sup>*
     ([0], {},
       [\<lparr>word = [], parent = None, children = [(CHR ''a'', 1), (CHR ''b'', 2)], dists = None, is_word = False\<rparr>,
        \<lparr>word = ''a'', parent = Some 0, children = [], dists = None, is_word = True\<rparr>,
        \<lparr>word = ''b'', parent = Some 0, children = [], dists = None, is_word = True\<rparr>])
     ([], {''b'', ''a''},
       [\<lparr>word = [], parent = None, children = [(CHR ''a'', 1), (CHR ''b'', 2)], dists = Some [0, 1], is_word = False\<rparr>,
        \<lparr>word = ''a'', parent = Some 0, children = [], dists = Some [1, 0], is_word = True\<rparr>,
        \<lparr>word = ''b'', parent = Some 0, children = [], dists = Some [1, 1], is_word = True\<rparr>])"
proof -
  let ?h0 = "[\<lparr>word = [], parent = None, children = [(CHR ''a'', 1), (CHR ''b'', 2)], dists = None, is_word = False\<rparr>,
        \<lparr>word = ''a'', parent = Some 0, children = [], dists = None, is_word = True\<rparr>,
        \<lparr>word = ''b'', parent = Some 0, children = [], dists = None, is_word = True\<rparr>]"
  let ?h1 = "[\<lparr>word = [], parent = None, children = [(CHR ''a'', 1), (CHR ''b'', 2)], dists = Some [0, 1], is_word = False\<rparr>,
        \<lparr>word = ''a'', parent = Some 0, children = [], dists = None, is_word = True\<rparr>,
        \<lparr>word = ''b'', parent = Some 0, children = [], dists = None, is_word = True\<rparr>]"
  let ?h2 = "[\<lparr>word = [], parent = None, children = [(CHR ''a'', 1), (CHR ''b'', 2)], dists = Some [0, 1], is_word = False\<rparr>,
        \<lparr>word = ''a'', parent = Some 0, children = [], dists = Some [1, 0], is_word = True\<rparr>,
        \<lparr>word = ''b'', parent = Some 0, children = [], dists = None, is_word = True\<rparr>]"
  let ?h3 = "[\<lparr>word = [], parent = None, children = [(CHR ''a'', 1), (CHR ''b'', 2)], dists = Some [0, 1], is_word = False\<rparr>,
        \<lparr>word = ''a'', parent = Some 0, children = [], dists = Some [1, 0], is_word = True\<rparr>,
        \<lparr>word = ''b'', parent = Some 0, children = [], dists = Some [1, 1], is_word = True\<rparr>]"
  have v0: "visit ''a'' 1 0 ({}, ?h0) = Inr ({}, ?h1, [1, 2])" by code_simp
  have v1: "visit ''a'' 1 1 ({}, ?h1) = Inr ({''a''}, ?h2, [])" by code_simp
  have v2: "visit ''a'' 1 2 ({''a''}, ?h2) = Inr ({''b'', ''a''}, ?h3, [])" by code_simp
  have s0: "traverse_step ''a'' 1 ([0], {}, ?h0) ([1, 2], {}, ?h1)"
    by (rule traverse_step.visit [OF _ v0]) simp_all
  have s1: "traverse_step ''a'' 1 ([1, 2], {}, ?h1) ([2], {''a''}, ?h2)"
    by (rule traverse_step.visit [OF _ v1]) simp_all
  have s2: "traverse_step ''a'' 1 ([2], {''a''}, ?h2) ([], {''b'', ''a''}, ?h3)"
    by (rule traverse_step.visit [OF _ v2]) simp_all
  show ?thesis using s0 s1 s2 by (meson rtranclp.rtrancl_into_rtrancl rtranclp.rtrancl_refl)
qed

theorem traversal_order_independent_witness:
  "\<exists>t'. Trie_fuzzySearch (Trie_insert (Trie_insert Trie_init ''a'') ''b'') ''a'' 1 = Some (Inr ({''b'', ''a''}, t'))"
proof -
  have b: "built {''b'', ''a''} (Trie_insert (Trie_insert Trie_init ''a'') ''b'')"
    using built.ins [OF built.ins [OF built.init, of "''a''"], of "''b''"]
    by (simp add: preprocess_a preprocess_b)
  have r: "(traverse_step (preprocess ''a'') (int 1))\<^sup>*\<^sup>*
     ([root (Trie_insert (Trie_insert Trie_init ''a'') ''b'')], {}, heap (Trie_insert (Trie_insert Trie_init ''a'') ''b''))
     ([], {''b'', ''a''},
       [\<lparr>word = [], parent = None, children = [(CHR ''a'', 1), (CHR ''b'', 2)], dists = Some [0, 1], is_word = False\<rparr>,
        \<lparr>word = ''a'', parent = Some 0, children = [], dists = Some [1, 0], is_word = True\<rparr>,
        \<lparr>word = ''b'', parent = Some 0, children = [], dists = Some [1, 1], is_word = True\<rparr>])"
    using queue_run_a_b by (simp add: heap_a_b preprocess_a)
  show ?thesis using traversal_order_independent [OF b r] by simp
qed

section \<open>The claims about the index\<close>

lemma add_word_trie: "trie (add_word doc idx w) = Trie_insert (trie idx) w"
  by (simp add: add_word_def Let_def split: prod.splits)

lemma add_words_built:
  "\<exists>W. built W (trie idx) \<Longrightarrow> \<exists>W. built W (trie (foldl (add_word doc) idx ws))"
proof (induction ws arbitrary: idx)
  case Nil
  then show ?case by simp
next
  case (Cons w ws)
  from Cons.prems obtain W where "built W (trie idx)" by blast
  then have "built (insert (preprocess w) W) (trie (add_word doc idx w))"
    unfolding add_word_trie by (rule built.ins)
  then have "\<exists>W. built W (trie (add_word doc idx w))" by blast
  from Cons.IH [OF this] show ?case by simp
qed

lemma add_docs_built:
  "\<exists>W. built W (trie idx) \<Longrightarrow>
     \<exists>W. built W (trie (foldl (\<lambda>idx doc. foldl (add_word doc) idx (str_split (preprocess doc))) idx docs))"
proof (induction docs arbitrary: idx)
  case Nil
  then show ?case by simp
next
  case (Cons d ds)
  from add_words_built [OF Cons.prems] Cons.IH show ?case by simp
qed

lemma Index_init_built: "\<exists>W. built W (trie (Index_init documents))"
proof -
  have "\<exists>W. built W (trie \<lparr>trie = Trie_init, inverted_index = Map.empty\<rparr>)"
    using built.init by auto
  from add_docs_built [OF this] show ?thesis by (simp add: Index_init_def)
qed

lemma getitem_fst: "fst (getitem d w) = (case d w of None \<Rightarrow> {} | Some docs \<Rightarrow> docs)"
  by (simp add: getitem_def split: option.splits)

lemma getitem_snd: "snd (getitem d w) w = (case d w of None \<Rightarrow> Some {} | Some docs \<Rightarrow> Some docs)"
  by (simp add: getitem_def split: option.splits)

text \<open>
  C2. For the index built from any documents, every query and every bound \<open>n \<ge> 0\<close>:
  the search of the index's trie returns a set of words, and the search of the index
  returns the union, over these words, of the document sets that the inverted index
  associates to them (none for a word that is not a key); the result is a set, so a
  document reached through several words appears once.
\<close>

theorem Index_fuzzySearch_union:
  "\<exists>ws t' idx'.
     Trie_fuzzySearch (trie (Index_init documents)) query (int n) = Some (Inr (ws, t')) \<and>
     Index_fuzzySearch (Index_init documents) query (int n) =
       Some (Inr (\<Union>w\<in>ws. (case inverted_index (Index_init documents) w of None \<Rightarrow> {} | Some docs \<Rightarrow> docs), idx'))"
proof -
  obtain W where "built W (trie (Index_init documents))" using Index_init_built by blast
  then have "wf_trie (trie (Index_init documents))" using built_wf by blast
  from search_result [OF this, of query n] obtain ws t' where
    s: "Trie_fuzzySearch (trie (Index_init documents)) query (int n) = Some (Inr (ws, t'))" by blast
  show ?thesis using s by (simp add: Index_fuzzySearch_def getitem_fst)
qed

theorem Index_fuzzySearch_union_witness:
  "\<exists>ws t' idx'.
     Trie_fuzzySearch (trie (Index_init [''cat dog'', ''dog mouse''])) ''dog'' 0 = Some (Inr (ws, t')) \<and>
     Index_fuzzySearch (Index_init [''cat dog'', ''dog mouse'']) ''dog'' 0 =
       Some (Inr (\<Union>w\<in>ws. (case inverted_index (Index_init [''cat dog'', ''dog mouse'']) w of None \<Rightarrow> {} | Some docs \<Rightarrow> docs), idx'))"
  using Index_fuzzySearch_union [of "[''cat dog'', ''dog mouse'']" "''dog''" 0] by simp

lemma Index_init_e_acute:
  "Index_init [[CHR 0xE9]] =
     \<lparr>trie = \<lparr>root = 0, heap = [\<lparr>word = [], parent = None, children = [], dists = None, is_word = True\<rparr>]\<rparr>,
      inverted_index = [''?'' \<mapsto> {[CHR 0xE9]}]\<rparr>"
  by (simp add: Index_init_def add_word_def getitem_def str_split_def preprocess_def lower_def
      lower_char_def translate_def punctuation_def encode_decode_def isspace_def Trie_insert_def
      Trie_init_def Node_def)

text \<open>
  The search of the index leaves the inverted index as it is when every word that the
  trie returns is a key.
\<close>

lemma Index_fuzzySearch_frame:
  assumes "Index_fuzzySearch idx query n = Some (Inr (docs, idx'))"
    and "Trie_fuzzySearch (trie idx) query n = Some (Inr (ws, t'))"
    and "ws \<subseteq> dom (inverted_index idx)"
  shows "inverted_index idx' = inverted_index idx"
proof -
  have "inverted_index idx' = (\<lambda>w. if w \<in> ws then snd (getitem (inverted_index idx) w) w else inverted_index idx w)"
    using assms(1,2) by (auto simp: Index_fuzzySearch_def)
  moreover have "snd (getitem (inverted_index idx) w) w = inverted_index idx w" if "w \<in> ws" for w
    using that assms(3) by (auto simp: getitem_snd split: option.splits)
  ultimately show ?thesis by auto
qed

text \<open>
  C9. The index built from the one document that is the letter U+00E9, searched for
  the empty query with bound 0: the trie returns the empty word, which is not a key of
  the inverted index, and the read \<^verbatim>\<open>self.inverted_index[word]\<close> of the
  \<^verbatim>\<open>defaultdict\<close> enters it. The inverted index has no entry for the empty word
  before the search and the entry with the empty set after it.
\<close>

theorem Index_fuzzySearch_adds_key:
  "inverted_index (Index_init [[CHR 0xE9]]) [] = None \<and>
   map_option (map_sum id (\<lambda>(docs, idx). (docs, inverted_index idx [])))
     (Index_fuzzySearch (Index_init [[CHR 0xE9]]) [] 0) = Some (Inr ({}, Some {}))"
proof -
  have "inverted_index (Index_init [[CHR 0xE9]]) [] = None" by code_simp
  moreover have "map_option (map_sum id (\<lambda>(docs, idx). (docs, inverted_index idx [])))
     (Index_fuzzySearch (Index_init [[CHR 0xE9]]) [] 0) = Some (Inr ({}, Some {}))" by code_simp
  ultimately show ?thesis by simp
qed

text \<open>
  C10. The index built from the one document that is the letter U+00E9: the document
  normalises to the token \<open>?\<close>, which becomes the key of the inverted index; the
  insertion into the trie normalises the token a second time, to the empty word. The
  terminal words of the trie and the keys of the inverted index differ.
\<close>

theorem Index_init_words_not_keys:
  "terminal_words (trie (Index_init [[CHR 0xE9]])) = {[]} \<and>
   dom (inverted_index (Index_init [[CHR 0xE9]])) = {''?''}"
  by (simp add: Index_init_e_acute terminal_words_def)

end
